theory Spec2Isabelle
  imports Main "HOL-Library.Word" "HOL-Library.Sublist" "HOL-Library.Multiset"
begin

section \<open>JavaScript strings and values\<close>

text \<open>
  A JavaScript string is a sequence of UTF-16 code units. The regular expressions of
  \<^verbatim>\<open>search.js\<close> carry no \<^verbatim>\<open>u\<close> flag, so they too work on code units.
\<close>

type_synonym code_unit = "16 word"
type_synonym jsstring = "code_unit list"

text \<open>An ASCII literal of the source, as code units.\<close>

definition ascii :: "string \<Rightarrow> jsstring" where
  "ascii s = map of_char s"

text \<open>
  The values a text field of the index can hold: a string, or nothing
  (\<^verbatim>\<open>undefined\<close> for an absent property, \<^verbatim>\<open>null\<close>).
\<close>

datatype jsval = Undefined | Null | Str jsstring

text \<open>\<^verbatim>\<open>!text\<close>: undefined, null and the empty string are falsy.\<close>

fun falsy :: "jsval \<Rightarrow> bool" where
  "falsy Undefined = True"
| "falsy Null = True"
| "falsy (Str s) = (s = [])"

datatype error = TypeError

section \<open>Character classes\<close>

text \<open>\<^verbatim>\<open>\w\<close> without the \<^verbatim>\<open>u\<close> and \<^verbatim>\<open>i\<close> flags: \<^verbatim>\<open>[A-Za-z0-9_]\<close>.\<close>

definition isWordChar :: "code_unit \<Rightarrow> bool" where
  "isWordChar c \<longleftrightarrow>
     (0x30 \<le> c \<and> c \<le> 0x39) \<or> (0x41 \<le> c \<and> c \<le> 0x5A) \<or> c = 0x5F \<or> (0x61 \<le> c \<and> c \<le> 0x7A)"

text \<open>The range U+4E00 to U+9FFF of the regular expression.\<close>

definition isCJK :: "code_unit \<Rightarrow> bool" where
  "isCJK c \<longleftrightarrow> 0x4E00 \<le> c \<and> c \<le> 0x9FFF"

text \<open>
  \<^verbatim>\<open>\s\<close>, which is also what \<^verbatim>\<open>trim\<close> strips: ECMAScript's WhiteSpace and
  LineTerminator code points (tab, LF, VT, FF, CR, space, NBSP, U+1680, U+2000 to U+200A,
  U+2028, U+2029, U+202F, U+205F, U+3000, U+FEFF).
\<close>

definition isWhiteSpace :: "code_unit \<Rightarrow> bool" where
  "isWhiteSpace c \<longleftrightarrow>
     (0x09 \<le> c \<and> c \<le> 0x0D) \<or> c = 0x20 \<or> c = 0xA0 \<or> c = 0x1680 \<or>
     (0x2000 \<le> c \<and> c \<le> 0x200A) \<or> c = 0x2028 \<or> c = 0x2029 \<or> c = 0x202F \<or>
     c = 0x205F \<or> c = 0x3000 \<or> c = 0xFEFF"

text \<open>The negated class of line 25: everything but \<^verbatim>\<open>\w\<close>, U+4E00 to U+9FFF and \<^verbatim>\<open>\s\<close>.\<close>

definition rxOther :: "code_unit \<Rightarrow> bool" where
  "rxOther c \<longleftrightarrow> \<not> (isWordChar c \<or> isCJK c \<or> isWhiteSpace c)"

definition isUpperASCII :: "code_unit \<Rightarrow> bool" where
  "isUpperASCII c \<longleftrightarrow> 0x41 \<le> c \<and> c \<le> 0x5A"

section \<open>String methods\<close>

text \<open>
  \<^verbatim>\<open>s.replace(/[^...]/g, '')\<close> of line 25: the global replace scans the string from
  the left; the class matches one code unit at a time, and every match is replaced by the
  empty string.
\<close>

fun replaceOther :: "jsstring \<Rightarrow> jsstring" where
  "replaceOther [] = []"
| "replaceOther (c # cs) = (if rxOther c then replaceOther cs else c # replaceOther cs)"

text \<open>\<^verbatim>\<open>s.trim()\<close>: white space is stripped from both ends.\<close>

definition trimStart :: "jsstring \<Rightarrow> jsstring" where
  "trimStart s = dropWhile isWhiteSpace s"

definition trimEnd :: "jsstring \<Rightarrow> jsstring" where
  "trimEnd s = rev (dropWhile isWhiteSpace (rev s))"

definition trim :: "jsstring \<Rightarrow> jsstring" where
  "trim s = trimEnd (trimStart s)"

text \<open>
  \<^verbatim>\<open>s.includes(k)\<close>: is there a position of \<open>s\<close> at which \<open>k\<close> starts? The positions are
  tried from the left; the position past the last code unit is one of them (for the empty
  \<open>k\<close>).
\<close>

fun includes_str :: "jsstring \<Rightarrow> jsstring \<Rightarrow> bool" where
  "includes_str [] k = (k = [])"
| "includes_str (c # cs) k = (prefix k (c # cs) \<or> includes_str cs k)"

text \<open>
  \<^verbatim>\<open>s.split(/\s+/)\<close>. The empty string gives one empty piece. Otherwise the string is
  scanned from the left: \<open>cur\<close> holds (reversed) the code units since the last split
  point; at a white-space code unit the greedy \<^verbatim>\<open>\s+\<close> matches the whole run, the piece
  before it is pushed and the scan goes on after the run; at the end the last piece is
  pushed. White space at either end of the string so gives an empty piece there.
\<close>

function splitScan :: "jsstring \<Rightarrow> jsstring \<Rightarrow> jsstring list" where
  "splitScan cur [] = [rev cur]"
| "splitScan cur (c # cs) =
     (if isWhiteSpace c then rev cur # splitScan [] (dropWhile isWhiteSpace cs)
      else splitScan (c # cur) cs)"
  by pat_completeness auto
termination
  by (relation "measure (\<lambda>(cur, s). length s)")
     (auto simp: length_dropWhile_le less_Suc_eq_le)

definition splitWhiteSpace :: "jsstring \<Rightarrow> jsstring list" where
  "splitWhiteSpace s = (if s = [] then [[]] else splitScan [] s)"

section \<open>normalizeText, searchInText and the query words\<close>

text \<open>
  \<^verbatim>\<open>String.prototype.toLowerCase\<close> is the platform's: it lowercases by the Unicode
  case tables of the engine, which are no part of the repository. The functions below
  take it as the parameter \<open>toLowerCase\<close>.
\<close>

type_synonym lowercase = "jsstring \<Rightarrow> jsstring"

text \<open>Lines 22 to 27.\<close>

definition normalizeText :: "lowercase \<Rightarrow> jsval \<Rightarrow> jsstring" where
  "normalizeText toLowerCase text =
     (if falsy text then []
      else case text of Str s \<Rightarrow> trim (replaceOther (toLowerCase s)) | _ \<Rightarrow> [])"

text \<open>Lines 29 to 32; \<^verbatim>\<open>keywords.some(...)\<close> is \<^const>\<open>list_ex\<close>.\<close>

definition searchInText :: "lowercase \<Rightarrow> jsval \<Rightarrow> jsstring list \<Rightarrow> bool" where
  "searchInText toLowerCase text kws =
     (let normalizedText = normalizeText toLowerCase text
      in list_ex (\<lambda>keyword. includes_str normalizedText keyword) kws)"

text \<open>Line 45.\<close>

definition queryKeywords :: "lowercase \<Rightarrow> jsstring \<Rightarrow> jsstring list" where
  "queryKeywords toLowerCase query =
     filter (\<lambda>k. length k > 0) (splitWhiteSpace (normalizeText toLowerCase (Str query)))"

text \<open>
  What \<^verbatim>\<open>toLowerCase\<close> does on ASCII code units: \<^verbatim>\<open>A\<close> to \<^verbatim>\<open>Z\<close> become
  \<^verbatim>\<open>a\<close> to \<^verbatim>\<open>z\<close>, all others stay. On strings of ASCII code units this is the
  platform's function; it is the instance at which the definitions are evaluated.
\<close>

definition lowerASCII :: lowercase where
  "lowerASCII s = map (\<lambda>c. if isUpperASCII c then c + 0x20 else c) s"

section \<open>The index, the options and the results\<close>

text \<open>
  The index is the parsed \<^verbatim>\<open>search_index.json\<close>. Of each object the model keeps the
  properties that \<^verbatim>\<open>search\<close> reads; a property that is absent reads as
  \<^verbatim>\<open>undefined\<close> (\<open>None\<close> for \<^verbatim>\<open>threads\<close> and \<^verbatim>\<open>posts\<close>). The threads
  are listed in the order of \<^verbatim>\<open>Object.entries\<close>.
\<close>

record post =
  author :: jsval
  content :: jsval
  date :: jsval

record thread =
  title :: jsval
  posts :: "post list option"

record search_index =
  threads :: "(jsstring \<times> thread) list option"

text \<open>
  The options object: a property that is \<^verbatim>\<open>undefined\<close> (\<open>None\<close>) takes the default of
  the destructuring pattern of lines 38 to 43. The three flags are only tested for
  truthiness; \<^verbatim>\<open>maxResults\<close> is an integer.
\<close>

record search_options =
  searchAuthor :: "bool option"
  searchTitle :: "bool option"
  searchContent :: "bool option"
  maxResults :: "int option"

definition withDefault :: "'a \<Rightarrow> 'a option \<Rightarrow> 'a" where
  "withDefault d v = (case v of None \<Rightarrow> d | Some x \<Rightarrow> x)"

text \<open>
  The objects pushed at lines 66 and 71 (\<open>AuthorMatch text\<close>, \<open>ContentMatch text\<close>), at
  line 56 (\<open>TitleMatch text\<close>), at lines 75 to 81 (\<open>PostMatch postIndex author date
  matches\<close>) and at lines 86 to 92.
\<close>

datatype post_match = AuthorMatch jsval | ContentMatch jsstring

datatype match = TitleMatch jsval | PostMatch nat jsval jsval "post_match list"

record result =
  r_file :: jsstring
  r_title :: jsval
  r_matches :: "match list"
  r_score :: int

section \<open>search\<close>

text \<open>
  Lines 62 to 72, for one post. \<^verbatim>\<open>post.content.substring(0, 200)\<close> throws a TypeError
  when \<^verbatim>\<open>post.content\<close> is undefined or null.
\<close>

definition postMatches ::
  "lowercase \<Rightarrow> bool \<Rightarrow> bool \<Rightarrow> jsstring list \<Rightarrow> post \<Rightarrow> error + post_match list" where
  "postMatches toLowerCase sAuthor sContent kws p =
     (let pm = (if sAuthor \<and> searchInText toLowerCase (author p) kws
                then [AuthorMatch (author p)] else [])
      in if sContent \<and> searchInText toLowerCase (content p) kws
         then (case content p of
                 Str s \<Rightarrow> Inr (pm @ [ContentMatch (take 200 s @ ascii ''...'')])
               | _ \<Rightarrow> Inl TypeError)
         else Inr pm)"

text \<open>The loop of lines 60 to 83, from index \<open>i\<close> on; \<open>matches\<close> is the array so far.\<close>

fun scanPosts ::
  "lowercase \<Rightarrow> bool \<Rightarrow> bool \<Rightarrow> jsstring list \<Rightarrow> nat \<Rightarrow> post list \<Rightarrow> match list
     \<Rightarrow> error + match list" where
  "scanPosts toLowerCase sAuthor sContent kws i [] matches = Inr matches"
| "scanPosts toLowerCase sAuthor sContent kws i (p # ps) matches =
     (case postMatches toLowerCase sAuthor sContent kws p of
        Inl e \<Rightarrow> Inl e
      | Inr pm \<Rightarrow>
          scanPosts toLowerCase sAuthor sContent kws (Suc i) ps
            (if length pm > 0 then matches @ [PostMatch i (author p) (date p) pm]
             else matches))"

text \<open>
  The body of the loop of lines 51 to 94, for one entry; \<open>results\<close> is the array so far.
  \<^verbatim>\<open>thread.posts.length\<close> throws a TypeError when \<^verbatim>\<open>thread.posts\<close> is undefined.
\<close>

definition scanThread ::
  "lowercase \<Rightarrow> bool \<Rightarrow> bool \<Rightarrow> bool \<Rightarrow> jsstring list \<Rightarrow> jsstring \<times> thread \<Rightarrow> result list
     \<Rightarrow> error + result list" where
  "scanThread toLowerCase sTitle sAuthor sContent kws entry results =
     (let filename = fst entry; thread = snd entry;
          matches = (if sTitle \<and> searchInText toLowerCase (title thread) kws
                     then [TitleMatch (title thread)] else [])
      in case posts thread of
           None \<Rightarrow> Inl TypeError
         | Some ps \<Rightarrow>
             (case scanPosts toLowerCase sAuthor sContent kws 0 ps matches of
                Inl e \<Rightarrow> Inl e
              | Inr matches' \<Rightarrow>
                  Inr (if length matches' > 0
                       then results @ [\<lparr>r_file = filename, r_title = title thread,
                                        r_matches = matches', r_score = int (length matches')\<rparr>]
                       else results)))"

fun scanThreads ::
  "lowercase \<Rightarrow> bool \<Rightarrow> bool \<Rightarrow> bool \<Rightarrow> jsstring list \<Rightarrow> (jsstring \<times> thread) list \<Rightarrow> result list
     \<Rightarrow> error + result list" where
  "scanThreads toLowerCase sTitle sAuthor sContent kws [] results = Inr results"
| "scanThreads toLowerCase sTitle sAuthor sContent kws (entry # entries) results =
     (case scanThread toLowerCase sTitle sAuthor sContent kws entry results of
        Inl e \<Rightarrow> Inl e
      | Inr results' \<Rightarrow> scanThreads toLowerCase sTitle sAuthor sContent kws entries results')"

text \<open>
  \<^verbatim>\<open>results.sort(cmp)\<close>. \<^verbatim>\<open>Array.prototype.sort\<close> is stable, and for a consistent
  comparator the sorted array is then determined: it is computed here by insertion, an
  element going before the first one it need not follow.
\<close>

fun insertBy :: "('a \<Rightarrow> 'a \<Rightarrow> int) \<Rightarrow> 'a \<Rightarrow> 'a list \<Rightarrow> 'a list" where
  "insertBy cmp x [] = [x]"
| "insertBy cmp x (y # ys) = (if cmp x y \<le> 0 then x # y # ys else y # insertBy cmp x ys)"

definition sortBy :: "('a \<Rightarrow> 'a \<Rightarrow> int) \<Rightarrow> 'a list \<Rightarrow> 'a list" where
  "sortBy cmp xs = foldr (insertBy cmp) xs []"

text \<open>The comparator of line 97.\<close>

definition byScore :: "result \<Rightarrow> result \<Rightarrow> int" where
  "byScore a b = r_score b - r_score a"

text \<open>
  \<^verbatim>\<open>xs.slice(0, end)\<close> for an integer \<open>end\<close>: a negative \<open>end\<close> counts from the end of
  the array.
\<close>

definition slice0 :: "'a list \<Rightarrow> int \<Rightarrow> 'a list" where
  "slice0 xs end =
     (let len = int (length xs);
          final = (if end < 0 then max (len + end) 0 else min end len)
      in take (nat final) xs)"

text \<open>
  Lines 36 to 98: \<^verbatim>\<open>search\<close> after \<^verbatim>\<open>await this.loadIndex()\<close>, on the value of
  \<^verbatim>\<open>this.index\<close> at that moment (\<open>None\<close> when it is null or another falsy value).
  \<^verbatim>\<open>Object.entries(this.index.threads)\<close> throws a TypeError when the index has no
  \<^verbatim>\<open>threads\<close>. \<open>scanResults\<close> is the array \<^verbatim>\<open>results\<close> when the loop ends.
\<close>

definition scanResults ::
  "lowercase \<Rightarrow> search_index \<Rightarrow> search_options \<Rightarrow> jsstring list \<Rightarrow> error + result list" where
  "scanResults toLowerCase idx opts kws =
     (case threads idx of
        None \<Rightarrow> Inl TypeError
      | Some entries \<Rightarrow>
          scanThreads toLowerCase (withDefault True (searchTitle opts))
            (withDefault True (searchAuthor opts)) (withDefault True (searchContent opts))
            kws entries [])"

definition searchLoaded ::
  "lowercase \<Rightarrow> search_index option \<Rightarrow> jsstring \<Rightarrow> search_options \<Rightarrow> error + result list" where
  "searchLoaded toLowerCase this_index query opts =
     (case this_index of
        None \<Rightarrow> Inr []
      | Some idx \<Rightarrow>
          if trim query = [] then Inr []
          else let kws = queryKeywords toLowerCase query
               in if length kws = 0 then Inr []
                  else (case scanResults toLowerCase idx opts kws of
                          Inl e \<Rightarrow> Inl e
                        | Inr results \<Rightarrow>
                            Inr (slice0 (sortBy byScore results)
                                   (withDefault 50 (maxResults opts)))))"

section \<open>loadIndex\<close>

text \<open>
  The object's fields. \<open>index\<close> is \<open>None\<close> while \<^verbatim>\<open>this.index\<close> is null or holds
  another falsy value, which lines 9 and 36 do not tell apart.
\<close>

record SonicHubSearch =
  index :: "search_index option"
  isLoading :: bool

definition constructor :: SonicHubSearch where
  "constructor = \<lparr>index = None, isLoading = False\<rparr>"

text \<open>
  How the awaited \<^verbatim>\<open>fetch\<close> and \<^verbatim>\<open>response.json()\<close> of lines 13 and 14 end: one
  of them rejects (the \<^verbatim>\<open>catch\<close> of line 16 swallows the error), or the document is
  parsed and assigned. An exception of the \<^verbatim>\<open>console.log\<close> of line 15 is caught as
  well, after the assignment.
\<close>

datatype fetch_result = FetchFailed | Parsed "search_index option"

text \<open>
  A call of \<^verbatim>\<open>loadIndex\<close> up to its first \<^verbatim>\<open>await\<close> (lines 9 to 13), and the rest
  of the body once the awaited promises have settled (lines 14 to 19). The second
  component counts the fetches issued.
\<close>

definition loadIndex_call :: "SonicHubSearch \<times> nat \<Rightarrow> SonicHubSearch \<times> nat" where
  "loadIndex_call w =
     (let this = fst w; fetches = snd w
      in if index this \<noteq> None \<or> isLoading this then (this, fetches)
         else (this\<lparr>isLoading := True\<rparr>, fetches + 1))"

definition loadIndex_settle :: "fetch_result \<Rightarrow> SonicHubSearch \<Rightarrow> SonicHubSearch" where
  "loadIndex_settle r this =
     (case r of
        Parsed v \<Rightarrow> this\<lparr>index := v, isLoading := False\<rparr>
      | FetchFailed \<Rightarrow> this\<lparr>isLoading := False\<rparr>)"

text \<open>
  The events of a page session that touch the object: a call of \<^verbatim>\<open>loadIndex\<close>, and
  the settling of the fetch in flight (there is one exactly while \<open>isLoading\<close> holds).
\<close>

datatype event = Call | Settle fetch_result

fun step :: "event \<Rightarrow> SonicHubSearch \<times> nat \<Rightarrow> SonicHubSearch \<times> nat" where
  "step Call w = loadIndex_call w"
| "step (Settle r) (this, fetches) =
     (if isLoading this then (loadIndex_settle r this, fetches) else (this, fetches))"

fun run :: "event list \<Rightarrow> SonicHubSearch \<times> nat \<Rightarrow> SonicHubSearch \<times> nat" where
  "run [] w = w"
| "run (e # es) w = run es (step e w)"

text \<open>
  A call of \<^verbatim>\<open>loadIndex\<close> that runs to its end before anything else happens; \<open>r\<close> is
  how its fetch ends, if it issues one.
\<close>

definition loadIndex :: "fetch_result \<Rightarrow> SonicHubSearch \<times> nat \<Rightarrow> SonicHubSearch \<times> nat" where
  "loadIndex r w =
     (if index (fst w) \<noteq> None \<or> isLoading (fst w) then w
      else run [Call, Settle r] w)"

text \<open>\<^verbatim>\<open>search\<close>, lines 34 to 99: the object afterwards and what the call returns or throws.\<close>

definition search ::
  "lowercase \<Rightarrow> fetch_result \<Rightarrow> SonicHubSearch \<times> nat \<Rightarrow> jsstring \<Rightarrow> search_options
     \<Rightarrow> (SonicHubSearch \<times> nat) \<times> (error + result list)" where
  "search toLowerCase r w query opts =
     (let w' = loadIndex r w
      in (w', searchLoaded toLowerCase (index (fst w')) query opts))"

section \<open>formatSearchResults\<close>

text \<open>
  What a template literal puts for \<^verbatim>\<open>${v}\<close>: the string itself, or the name of
  \<^verbatim>\<open>undefined\<close> or \<^verbatim>\<open>null\<close>; for an array length, its decimal digits.
\<close>

fun toString :: "jsval \<Rightarrow> jsstring" where
  "toString Undefined = ascii ''undefined''"
| "toString Null = ascii ''null''"
| "toString (Str s) = s"

fun numberToString :: "nat \<Rightarrow> jsstring" where
  "numberToString n =
     (if n < 10 then [0x30 + of_nat n]
      else numberToString (n div 10) @ [0x30 + of_nat (n mod 10)])"

declare numberToString.simps [simp del]

text \<open>
  Lines 141 to 145. Setting \<^verbatim>\<open>textContent\<close> to undefined or null leaves the element
  empty; a string becomes one text node, which \<^verbatim>\<open>innerHTML\<close> serialises with
  \<^verbatim>\<open>&\<close>, U+00A0, \<^verbatim>\<open><\<close> and \<^verbatim>\<open>>\<close> escaped.
\<close>

definition escapeUnit :: "code_unit \<Rightarrow> jsstring" where
  "escapeUnit c =
     (if c = 0x26 then ascii ''&amp;''
      else if c = 0xA0 then ascii ''&nbsp;''
      else if c = 0x3C then ascii ''&lt;''
      else if c = 0x3E then ascii ''&gt;''
      else [c])"

fun escapeHtml :: "jsval \<Rightarrow> jsstring" where
  "escapeHtml Undefined = []"
| "escapeHtml Null = []"
| "escapeHtml (Str s) = concat (map escapeUnit s)"

text \<open>The literal of line 103 and the template literals of lines 106 to 135.\<close>

definition noResults :: jsstring where
  \<open>noResults =
     ascii ''<div class="search-no-results">'' @
     [0x627E, 0x4E0D, 0x5230, 0x7B26, 0x5408, 0x7684, 0x641C, 0x5C0B, 0x7D50, 0x679C, 0x3002] @
     ascii ''</div>''\<close>

definition resultsHeader :: "nat \<Rightarrow> jsstring" where
  \<open>resultsHeader n =
     ascii ''<div class="search-results-header">'' @ [0x627E, 0x5230] @ ascii '' '' @
     numberToString n @
     ascii '' '' @ [0x500B, 0x76F8, 0x95DC, 0x7D50, 0x679C, 0xFF1A] @ ascii ''</div>''\<close>

definition itemOpen :: "result \<Rightarrow> jsstring" where
  \<open>itemOpen r =
     ascii ''\<newline>                <div class="search-result-item">\<newline>                    <div class="search-result-title">\<newline>                        <a href="'' @
     r_file r @
     ascii ''" target="_blank">'' @
     escapeHtml (r_title r) @
     ascii ''</a>\<newline>                    </div>\<newline>                    <div class="search-result-matches">''\<close>

definition titleMatchHtml :: "jsval \<Rightarrow> jsstring" where
  \<open>titleMatchHtml text =
     ascii ''<div class="search-match search-match-title">'' @ [0xD83D, 0xDCCB] @ ascii '' '' @
     [0x6A19, 0x984C, 0x7B26, 0x5408] @ ascii '': '' @
     escapeHtml text @
     ascii ''</div>''\<close>

definition postInfoHtml :: "jsval \<Rightarrow> jsval \<Rightarrow> jsstring" where
  \<open>postInfoHtml a d =
     ascii ''<div class="search-match search-match-post">\<newline>                        <div class="search-post-info">'' @
     [0xD83D, 0xDC64] @ ascii '' '' @
     escapeHtml a @
     ascii '' | '' @ [0xD83D, 0xDD50] @ ascii '' '' @
     toString d @
     ascii ''</div>''\<close>

definition authorMatchHtml :: "jsval \<Rightarrow> jsstring" where
  \<open>authorMatchHtml text =
     ascii ''<div class="search-post-match">'' @ [0xD83D, 0xDC64] @ ascii '' '' @
     [0x4F5C, 0x8005, 0x7B26, 0x5408] @ ascii '': '' @
     escapeHtml text @
     ascii ''</div>''\<close>

definition contentMatchHtml :: "jsstring \<Rightarrow> jsstring" where
  \<open>contentMatchHtml text =
     ascii ''<div class="search-post-match">'' @ [0xD83D, 0xDCDD] @ ascii '' '' @
     [0x5167, 0x5BB9, 0x7B26, 0x5408] @ ascii '': '' @
     escapeHtml (Str text) @
     ascii ''</div>''\<close>

definition itemClose :: jsstring where
  \<open>itemClose = ascii ''</div>\<newline>                </div>''\<close>

text \<open>The loops of lines 123 to 129, 116 to 132 and 108 to 136, each appending to \<open>html\<close>.\<close>

fun formatPostMatches :: "post_match list \<Rightarrow> jsstring \<Rightarrow> jsstring" where
  "formatPostMatches [] html = html"
| "formatPostMatches (AuthorMatch text # pms) html =
     formatPostMatches pms (html @ authorMatchHtml text)"
| "formatPostMatches (ContentMatch text # pms) html =
     formatPostMatches pms (html @ contentMatchHtml text)"

fun formatMatches :: "match list \<Rightarrow> jsstring \<Rightarrow> jsstring" where
  "formatMatches [] html = html"
| "formatMatches (TitleMatch text # ms) html = formatMatches ms (html @ titleMatchHtml text)"
| "formatMatches (PostMatch i a d pms # ms) html =
     formatMatches ms (formatPostMatches pms (html @ postInfoHtml a d) @ ascii ''</div>'')"

fun formatResults :: "result list \<Rightarrow> jsstring \<Rightarrow> jsstring" where
  "formatResults [] html = html"
| "formatResults (r # rs) html =
     formatResults rs (formatMatches (r_matches r) (html @ itemOpen r) @ itemClose)"

definition formatSearchResults :: "result list \<Rightarrow> jsstring" where
  "formatSearchResults results =
     (if length results = 0 then noResults
      else formatResults results (resultsHeader (length results)))"

section \<open>Notions of the specification\<close>

text \<open>
  Splitting on runs of white space, with no empty piece: leading white space is
  skipped, the longest run without white space is a word, and so on after it.
\<close>

function wordsSpec :: "jsstring \<Rightarrow> jsstring list" where
  "wordsSpec s =
     (case dropWhile isWhiteSpace s of
        [] \<Rightarrow> []
      | c # cs \<Rightarrow> takeWhile (\<lambda>x. \<not> isWhiteSpace x) (c # cs)
                 # wordsSpec (dropWhile (\<lambda>x. \<not> isWhiteSpace x) cs))"
  by pat_completeness auto
termination
proof (relation "measure length")
  show "wf (measure length)" by simp
next
  fix s :: jsstring and c cs
  assume "dropWhile isWhiteSpace s = c # cs"
  then have "length (c # cs) \<le> length s"
    by (metis length_dropWhile_le)
  moreover have "length (dropWhile (\<lambda>x. \<not> isWhiteSpace x) cs) \<le> length cs"
    by (rule length_dropWhile_le)
  ultimately show "(dropWhile (\<lambda>x. \<not> isWhiteSpace x) cs, s) \<in> measure length"
    by simp
qed

declare wordsSpec.simps [simp del]

text \<open>
  The code units a normalised text is made of: those that line 25 keeps, the ASCII
  capitals apart.
\<close>

definition isNormalUnit :: "code_unit \<Rightarrow> bool" where
  "isNormalUnit c \<longleftrightarrow> \<not> rxOther c \<and> \<not> isUpperASCII c"

text \<open>
  A field matches when some keyword is a substring of its normalised text. A post is hit
  when an enabled field of it matches, a thread when its title is enabled and matches or
  one of its posts is hit. The count of a thread is one for such a title plus one for
  every post that is hit.
\<close>

definition fieldMatches :: "lowercase \<Rightarrow> jsstring list \<Rightarrow> jsval \<Rightarrow> bool" where
  "fieldMatches toLowerCase kws text \<longleftrightarrow>
     (\<exists>k\<in>set kws. sublist k (normalizeText toLowerCase text))"

definition postHit :: "lowercase \<Rightarrow> bool \<Rightarrow> bool \<Rightarrow> jsstring list \<Rightarrow> post \<Rightarrow> bool" where
  "postHit toLowerCase sAuthor sContent kws p \<longleftrightarrow>
     (sAuthor \<and> fieldMatches toLowerCase kws (author p)) \<or>
     (sContent \<and> fieldMatches toLowerCase kws (content p))"

definition threadPosts :: "thread \<Rightarrow> post list" where
  "threadPosts th = (case posts th of None \<Rightarrow> [] | Some ps \<Rightarrow> ps)"

definition threadHit ::
  "lowercase \<Rightarrow> bool \<Rightarrow> bool \<Rightarrow> bool \<Rightarrow> jsstring list \<Rightarrow> thread \<Rightarrow> bool" where
  "threadHit toLowerCase sTitle sAuthor sContent kws th \<longleftrightarrow>
     (sTitle \<and> fieldMatches toLowerCase kws (title th)) \<or>
     (\<exists>p\<in>set (threadPosts th). postHit toLowerCase sAuthor sContent kws p)"

definition matchCount ::
  "lowercase \<Rightarrow> bool \<Rightarrow> bool \<Rightarrow> bool \<Rightarrow> jsstring list \<Rightarrow> thread \<Rightarrow> nat" where
  "matchCount toLowerCase sTitle sAuthor sContent kws th =
     (if sTitle \<and> fieldMatches toLowerCase kws (title th) then 1 else 0) +
     length (filter (postHit toLowerCase sAuthor sContent kws) (threadPosts th))"

text \<open>The same with the flags taken from the options, as \<^verbatim>\<open>search\<close> does.\<close>

definition threadSelected ::
  "lowercase \<Rightarrow> search_options \<Rightarrow> jsstring list \<Rightarrow> thread \<Rightarrow> bool" where
  "threadSelected toLowerCase opts kws th =
     threadHit toLowerCase (withDefault True (searchTitle opts))
       (withDefault True (searchAuthor opts)) (withDefault True (searchContent opts)) kws th"

definition threadScore ::
  "lowercase \<Rightarrow> search_options \<Rightarrow> jsstring list \<Rightarrow> thread \<Rightarrow> int" where
  "threadScore toLowerCase opts kws th =
     int (matchCount toLowerCase (withDefault True (searchTitle opts))
       (withDefault True (searchAuthor opts)) (withDefault True (searchContent opts)) kws th)"

text \<open>Some keyword occurs in some normalised field of the thread, whatever the options.\<close>

definition keywordOccurs :: "lowercase \<Rightarrow> jsstring list \<Rightarrow> thread \<Rightarrow> bool" where
  "keywordOccurs toLowerCase kws th \<longleftrightarrow>
     (\<exists>k\<in>set kws.
        sublist k (normalizeText toLowerCase (title th)) \<or>
        (\<exists>p\<in>set (threadPosts th).
           sublist k (normalizeText toLowerCase (author p)) \<or>
           sublist k (normalizeText toLowerCase (content p))))"

text \<open>
  The markup of one entry of \<^verbatim>\<open>result.matches\<close>, and the link of line 112.
\<close>

fun postMatchEntry :: "post_match \<Rightarrow> jsstring" where
  "postMatchEntry (AuthorMatch text) = authorMatchHtml text"
| "postMatchEntry (ContentMatch text) = contentMatchHtml text"

fun matchEntry :: "match \<Rightarrow> jsstring" where
  "matchEntry (TitleMatch text) = titleMatchHtml text"
| "matchEntry (PostMatch i a d pms) =
     postInfoHtml a d @ concat (map postMatchEntry pms) @ ascii ''</div>''"

definition titleLink :: "result \<Rightarrow> jsstring" where
  \<open>titleLink r =
     ascii ''<a href="'' @ r_file r @ ascii ''" target="_blank">'' @
     escapeHtml (r_title r) @ ascii ''</a>''\<close>

section \<open>An index to evaluate on\<close>

definition exampleThreads :: "(jsstring \<times> thread) list" where
  "exampleThreads =
     [(ascii ''t1.html'',
       \<lparr>title = Str (ascii ''Chao garden''),
        posts = Some [\<lparr>author = Str (ascii ''Sonic''), content = Str (ascii ''I like rings.''),
                       date = Str (ascii ''2008-01-02'')\<rparr>]\<rparr>),
      (ascii ''t2.html'',
       \<lparr>title = Str (ascii ''Emeralds''),
        posts = Some [\<lparr>author = Str (ascii ''Amy''), content = Null, date = Undefined\<rparr>]\<rparr>),
      (ascii ''t3.html'',
       \<lparr>title = Str (ascii ''Sonic Adventure''),
        posts = Some [\<lparr>author = Str (ascii ''Tails''), content = Str (ascii ''SONIC is fast!''),
                       date = Str (ascii ''2008-01-03'')\<rparr>]\<rparr>)]"

definition exampleIndex :: search_index where
  "exampleIndex = \<lparr>threads = Some exampleThreads\<rparr>"

definition defaultOptions :: search_options where
  "defaultOptions =
     \<lparr>searchAuthor = None, searchTitle = None, searchContent = None, maxResults = None\<rparr>"

definition negativeOptions :: search_options where
  "negativeOptions =
     \<lparr>searchAuthor = None, searchTitle = None, searchContent = None, maxResults = Some (- 1)\<rparr>"

definition limitOne :: search_options where
  "limitOne =
     \<lparr>searchAuthor = None, searchTitle = None, searchContent = None, maxResults = Some 1\<rparr>"

text \<open>What the query \<^verbatim>\<open>Sonic\<close> finds in the first and in the third thread.\<close>

definition exampleResult1 :: result where
  "exampleResult1 =
     \<lparr>r_file = ascii ''t1.html'', r_title = Str (ascii ''Chao garden''),
      r_matches = [PostMatch 0 (Str (ascii ''Sonic'')) (Str (ascii ''2008-01-02''))
                     [AuthorMatch (Str (ascii ''Sonic''))]],
      r_score = 1\<rparr>"

definition exampleResult3 :: result where
  "exampleResult3 =
     \<lparr>r_file = ascii ''t3.html'', r_title = Str (ascii ''Sonic Adventure''),
      r_matches = [TitleMatch (Str (ascii ''Sonic Adventure'')),
                   PostMatch 0 (Str (ascii ''Tails'')) (Str (ascii ''2008-01-03''))
                     [ContentMatch (ascii ''SONIC is fast!...'')]],
      r_score = 2\<rparr>"

section \<open>Strings: substring test, trimming, splitting\<close>

lemma includes_str_sublist: "includes_str s k \<longleftrightarrow> sublist k s"
  by (induction s) (simp_all add: sublist_Cons_right)

lemma searchInText_iff:
  "searchInText lc text kws \<longleftrightarrow> (\<exists>k\<in>set kws. sublist k (normalizeText lc text))"
  by (simp add: searchInText_def list_ex_iff includes_str_sublist)

lemma replaceOther_filter: "replaceOther s = filter (\<lambda>c. \<not> rxOther c) s"
  by (induction s) simp_all

lemma dropWhile_id_hd: "xs = [] \<or> \<not> P (hd xs) \<Longrightarrow> dropWhile P xs = xs"
  by (cases xs) auto

lemma rev_dropWhile_takeWhile:
  "xs = rev (dropWhile P (rev xs)) @ rev (takeWhile P (rev xs))"
  by (metis rev_append rev_rev_ident takeWhile_dropWhile_id)

lemma trimStart_decomp:
  "trimStart s = trim s @ rev (takeWhile isWhiteSpace (rev (trimStart s)))"
  unfolding trim_def trimEnd_def by (rule rev_dropWhile_takeWhile)

lemma trim_decomp:
  "s = takeWhile isWhiteSpace s @ trim s @ rev (takeWhile isWhiteSpace (rev (trimStart s)))"
proof -
  have "s = takeWhile isWhiteSpace s @ trimStart s"
    by (simp add: trimStart_def)
  with trimStart_decomp [of s] show ?thesis by metis
qed

lemma trim_last: "trim s \<noteq> [] \<Longrightarrow> \<not> isWhiteSpace (last (trim s))"
proof -
  assume ne: "trim s \<noteq> []"
  let ?d = "dropWhile isWhiteSpace (rev (trimStart s))"
  from ne have "?d \<noteq> []" by (simp add: trim_def trimEnd_def)
  then have "\<not> isWhiteSpace (hd ?d)" by (rule hd_dropWhile)
  moreover have "last (trim s) = hd ?d"
    using \<open>?d \<noteq> []\<close> by (simp add: trim_def trimEnd_def last_rev)
  ultimately show ?thesis by simp
qed

lemma trim_hd: "trim s \<noteq> [] \<Longrightarrow> \<not> isWhiteSpace (hd (trim s))"
proof -
  assume ne: "trim s \<noteq> []"
  have ts: "trimStart s = trim s @ rev (takeWhile isWhiteSpace (rev (trimStart s)))"
    by (rule trimStart_decomp)
  with ne have "trimStart s \<noteq> []" by auto
  then have "\<not> isWhiteSpace (hd (trimStart s))"
    unfolding trimStart_def by (rule hd_dropWhile)
  moreover from ts ne have "hd (trimStart s) = hd (trim s)"
    by (metis hd_append2)
  ultimately show ?thesis by simp
qed

lemma set_trim: "set (trim s) \<subseteq> set s"
  using trim_decomp [of s] by (metis Un_upper1 Un_upper2 set_append subset_trans)

lemma trim_id: "s = [] \<or> (\<not> isWhiteSpace (hd s) \<and> \<not> isWhiteSpace (last s)) \<Longrightarrow> trim s = s"
proof -
  assume a: "s = [] \<or> (\<not> isWhiteSpace (hd s) \<and> \<not> isWhiteSpace (last s))"
  then have 1: "trimStart s = s"
    unfolding trimStart_def by (intro dropWhile_id_hd) auto
  from a have "rev s = [] \<or> \<not> isWhiteSpace (hd (rev s))"
    by (cases "s = []") (simp_all add: hd_rev)
  then have "dropWhile isWhiteSpace (rev s) = rev s" by (rule dropWhile_id_hd)
  then have "trimEnd s = s" by (simp add: trimEnd_def)
  with 1 show ?thesis by (simp add: trim_def)
qed

lemma trim_all_ws: "list_all isWhiteSpace q \<Longrightarrow> trim q = []"
proof -
  assume "list_all isWhiteSpace q"
  then have "\<forall>x\<in>set q. isWhiteSpace x" by (simp only: list_all_iff)
  then have d: "dropWhile isWhiteSpace q = []" by (simp only: dropWhile_eq_Nil_conv)
  show ?thesis unfolding trim_def trimStart_def trimEnd_def d by simp
qed

lemma wordsSpec_dropWhile: "wordsSpec (dropWhile isWhiteSpace s) = wordsSpec s"
  by (subst (1 2) wordsSpec.simps) simp

lemma wordsSpec_Nil: "wordsSpec [] = []"
  by (subst wordsSpec.simps) simp

lemma wordsSpec_ws_Cons: "isWhiteSpace c \<Longrightarrow> wordsSpec (c # cs) = wordsSpec cs"
  using wordsSpec_dropWhile [of "c # cs"] wordsSpec_dropWhile [of cs] by simp

lemma wordsSpec_word:
  assumes "w \<noteq> []" and "\<forall>x\<in>set w. \<not> isWhiteSpace x" and "s = [] \<or> isWhiteSpace (hd s)"
  shows "wordsSpec (w @ s) = w # wordsSpec s"
proof -
  from assms(1) obtain c cs where w: "w = c # cs" by (cases w) auto
  with assms(2) have c: "\<not> isWhiteSpace c" and cs: "\<forall>x\<in>set cs. \<not> isWhiteSpace x" by auto
  have tw: "takeWhile (\<lambda>x. \<not> isWhiteSpace x) (cs @ s) = cs"
    using cs assms(3) by (cases s) (simp_all add: takeWhile_append2)
  have dw: "dropWhile (\<lambda>x. \<not> isWhiteSpace x) (cs @ s) = s"
    using cs assms(3) by (cases s) (simp_all add: dropWhile_append2)
  show ?thesis
    by (subst wordsSpec.simps) (simp add: w c tw dw)
qed

lemma splitScan_words:
  "\<forall>x\<in>set cur. \<not> isWhiteSpace x \<Longrightarrow>
   filter (\<lambda>k. length k > 0) (splitScan cur s) = wordsSpec (rev cur @ s)"
proof (induction cur s rule: splitScan.induct)
  case (1 cur)
  show ?case
  proof (cases "cur = []")
    case True
    then show ?thesis by (simp add: wordsSpec_Nil)
  next
    case False
    with 1 wordsSpec_word [of "rev cur" "[]"] show ?thesis
      by (simp add: wordsSpec_Nil)
  qed
next
  case (2 cur c cs)
  show ?case
  proof (cases "isWhiteSpace c")
    case True
    with 2 have IH: "filter (\<lambda>k. length k > 0) (splitScan [] (dropWhile isWhiteSpace cs))
                     = wordsSpec cs"
      by (simp add: wordsSpec_dropWhile)
    show ?thesis
    proof (cases "cur = []")
      case True
      with \<open>isWhiteSpace c\<close> IH show ?thesis by (simp add: wordsSpec_ws_Cons)
    next
      case False
      with 2(3) \<open>isWhiteSpace c\<close> wordsSpec_word [of "rev cur" "c # cs"]
      have "wordsSpec (rev cur @ c # cs) = rev cur # wordsSpec cs"
        by (simp add: wordsSpec_ws_Cons)
      with False \<open>isWhiteSpace c\<close> IH show ?thesis by simp
    qed
  next
    case False
    with 2 show ?thesis by simp
  qed
qed

lemma queryKeywords_words:
  "queryKeywords lc q = wordsSpec (normalizeText lc (Str q))"
proof (cases "normalizeText lc (Str q) = []")
  case True
  then show ?thesis
    by (simp add: queryKeywords_def splitWhiteSpace_def wordsSpec_Nil)
next
  case False
  then show ?thesis
    using splitScan_words [of "[]" "normalizeText lc (Str q)"]
    by (simp add: queryKeywords_def splitWhiteSpace_def)
qed

lemma wordsSpec_elems:
  "k \<in> set (wordsSpec s) \<Longrightarrow> k \<noteq> [] \<and> (\<forall>x\<in>set k. \<not> isWhiteSpace x) \<and> set k \<subseteq> set s"
proof (induction s rule: wordsSpec.induct)
  case (1 s)
  show ?case
  proof (cases "dropWhile isWhiteSpace s")
    case Nil
    with 1(2) show ?thesis by (subst (asm) wordsSpec.simps) simp
  next
    case (Cons c cs)
    then have c: "\<not> isWhiteSpace c" by (metis hd_dropWhile list.sel(1) list.distinct(1))
    have sub: "set (c # cs) \<subseteq> set s"
    proof
      fix x assume "x \<in> set (c # cs)"
      then have "x \<in> set (dropWhile isWhiteSpace s)" by (simp only: Cons)
      then show "x \<in> set s" by (rule set_dropWhileD)
    qed
    from 1(2) Cons have "k = takeWhile (\<lambda>x. \<not> isWhiteSpace x) (c # cs)
        \<or> k \<in> set (wordsSpec (dropWhile (\<lambda>x. \<not> isWhiteSpace x) cs))"
      by (subst (asm) wordsSpec.simps) simp
    then show ?thesis
    proof
      assume k: "k = takeWhile (\<lambda>x. \<not> isWhiteSpace x) (c # cs)"
      then have "k \<noteq> []" using c by simp
      moreover have "\<forall>x\<in>set k. \<not> isWhiteSpace x \<and> x \<in> set (c # cs)"
      proof
        fix x assume "x \<in> set k"
        then have "x \<in> set (takeWhile (\<lambda>x. \<not> isWhiteSpace x) (c # cs))" by (simp only: k)
        from set_takeWhileD [OF this] show "\<not> isWhiteSpace x \<and> x \<in> set (c # cs)" by simp
      qed
      ultimately show ?thesis using sub by blast
    next
      assume "k \<in> set (wordsSpec (dropWhile (\<lambda>x. \<not> isWhiteSpace x) cs))"
      with 1(1) [OF Cons] have "k \<noteq> [] \<and> (\<forall>x\<in>set k. \<not> isWhiteSpace x)
          \<and> set k \<subseteq> set (dropWhile (\<lambda>x. \<not> isWhiteSpace x) cs)" by simp
      moreover have "set (dropWhile (\<lambda>x. \<not> isWhiteSpace x) cs) \<subseteq> set s"
      proof
        fix x assume "x \<in> set (dropWhile (\<lambda>x. \<not> isWhiteSpace x) cs)"
        then have "x \<in> set cs" by (rule set_dropWhileD)
        with sub show "x \<in> set s" by auto
      qed
      ultimately show ?thesis by blast
    qed
  qed
qed

lemma filter_dropWhile_ws:
  "filter (\<lambda>c. \<not> isWhiteSpace c) (dropWhile isWhiteSpace s) = filter (\<lambda>c. \<not> isWhiteSpace c) s"
  by (induction s) simp_all

lemma filter_split_nws:
  "filter (\<lambda>c. \<not> isWhiteSpace c) s =
     takeWhile (\<lambda>c. \<not> isWhiteSpace c) s @
     filter (\<lambda>c. \<not> isWhiteSpace c) (dropWhile (\<lambda>c. \<not> isWhiteSpace c) s)"
  by (induction s) simp_all

lemma concat_wordsSpec: "concat (wordsSpec s) = filter (\<lambda>c. \<not> isWhiteSpace c) s"
proof (induction s rule: wordsSpec.induct)
  case (1 s)
  show ?case
  proof (cases "dropWhile isWhiteSpace s")
    case Nil
    have "wordsSpec s = []" by (subst wordsSpec.simps) (simp add: Nil)
    moreover have "filter (\<lambda>c. \<not> isWhiteSpace c) s = []"
      using filter_dropWhile_ws [of s] by (simp only: Nil filter.simps)
    ultimately show ?thesis by simp
  next
    case (Cons c cs)
    then have c: "\<not> isWhiteSpace c" by (metis hd_dropWhile list.sel(1) list.distinct(1))
    have w: "wordsSpec s = takeWhile (\<lambda>x. \<not> isWhiteSpace x) (c # cs)
               # wordsSpec (dropWhile (\<lambda>x. \<not> isWhiteSpace x) cs)"
      by (subst wordsSpec.simps) (simp add: Cons)
    have "filter (\<lambda>c. \<not> isWhiteSpace c) s = filter (\<lambda>c. \<not> isWhiteSpace c) (c # cs)"
      using filter_dropWhile_ws [of s] by (simp only: Cons)
    also have "\<dots> = c # filter (\<lambda>c. \<not> isWhiteSpace c) cs" using c by simp
    also have "\<dots> = c # takeWhile (\<lambda>c. \<not> isWhiteSpace c) cs @
        filter (\<lambda>c. \<not> isWhiteSpace c) (dropWhile (\<lambda>c. \<not> isWhiteSpace c) cs)"
      using filter_split_nws [of cs] by simp
    also have "\<dots> = concat (wordsSpec s)"
      using 1 [OF Cons] c by (simp add: w)
    finally show ?thesis by simp
  qed
qed

lemma queryKeywords_nonempty: "\<forall>k\<in>set (queryKeywords lc q). k \<noteq> []"
  using wordsSpec_elems [of _ "normalizeText lc (Str q)"]
  by (simp add: queryKeywords_words)

section \<open>normalizeText\<close>

lemma normalizeText_Str:
  "t \<noteq> [] \<Longrightarrow> normalizeText lc (Str t) = trim (filter (\<lambda>c. \<not> rxOther c) (lc t))"
  by (simp add: normalizeText_def replaceOther_filter)

lemma normalizeText_empty:
  "normalizeText lc Undefined = []" "normalizeText lc Null = []" "normalizeText lc (Str []) = []"
  by (simp_all add: normalizeText_def)

lemma normalizeText_ends:
  "normalizeText lc v = [] \<or>
   (\<not> isWhiteSpace (hd (normalizeText lc v)) \<and> \<not> isWhiteSpace (last (normalizeText lc v)))"
proof (cases "falsy v")
  case True
  then show ?thesis by (simp add: normalizeText_def)
next
  case False
  then obtain s where "v = Str s" "s \<noteq> []" by (cases v) auto
  then show ?thesis
    using trim_hd [of "filter (\<lambda>c. \<not> rxOther c) (lc s)"]
          trim_last [of "filter (\<lambda>c. \<not> rxOther c) (lc s)"]
    by (auto simp: normalizeText_Str)
qed

lemma normalizeText_units:
  assumes "\<And>s c. c \<in> set (lc s) \<Longrightarrow> \<not> isUpperASCII c"
  shows "\<forall>c\<in>set (normalizeText lc v). isNormalUnit c"
proof (cases "falsy v")
  case True
  then show ?thesis by (simp add: normalizeText_def)
next
  case False
  then obtain s where v: "v = Str s" "s \<noteq> []" by (cases v) auto
  have "normalizeText lc v = trim (filter (\<lambda>c. \<not> rxOther c) (lc s))"
    using v by (simp add: normalizeText_Str)
  then have "set (normalizeText lc v) \<subseteq> set (filter (\<lambda>c. \<not> rxOther c) (lc s))"
    by (simp only: set_trim)
  then show ?thesis
    using assms by (auto simp: isNormalUnit_def)
qed

lemma normalizeText_fixed:
  assumes fixes_normal: "\<And>s. \<forall>c\<in>set s. isNormalUnit c \<Longrightarrow> lc s = s"
      and units: "\<forall>c\<in>set s. isNormalUnit c"
      and ends: "s = [] \<or> (\<not> isWhiteSpace (hd s) \<and> \<not> isWhiteSpace (last s))"
  shows "normalizeText lc (Str s) = s"
proof (cases "s = []")
  case True
  then show ?thesis by (simp add: normalizeText_empty)
next
  case False
  have "filter (\<lambda>c. \<not> rxOther c) s = s"
    using units by (simp add: isNormalUnit_def)
  with False fixes_normal [OF units] trim_id [OF ends] show ?thesis
    by (simp add: normalizeText_Str)
qed

lemma lowerASCII_no_upper: "c \<in> set (lowerASCII s) \<Longrightarrow> \<not> isUpperASCII c"
proof -
  have "\<not> isUpperASCII (d + 0x20)" if "isUpperASCII d" for d :: code_unit
    using that unfolding isUpperASCII_def by unat_arith
  then show "c \<in> set (lowerASCII s) \<Longrightarrow> \<not> isUpperASCII c"
    by (auto simp: lowerASCII_def split: if_splits)
qed

lemma lowerASCII_fixes_normal: "\<forall>c\<in>set s. isNormalUnit c \<Longrightarrow> lowerASCII s = s"
  by (simp add: lowerASCII_def isNormalUnit_def map_idI)

section \<open>The scan\<close>

lemma searchInText_fieldMatches: "searchInText lc text kws = fieldMatches lc kws text"
  by (simp add: searchInText_iff fieldMatches_def)

lemma fieldMatches_falsy:
  "\<forall>k\<in>set kws. k \<noteq> [] \<Longrightarrow> falsy v \<Longrightarrow> \<not> fieldMatches lc kws v"
  by (simp add: fieldMatches_def normalizeText_def)

lemma postMatches_ok:
  assumes "\<forall>k\<in>set kws. k \<noteq> []"
  shows "\<exists>pm. postMatches lc sA sC kws p = Inr pm \<and> (pm \<noteq> [] \<longleftrightarrow> postHit lc sA sC kws p)"
proof (cases "sC \<and> fieldMatches lc kws (content p)")
  case True
  with fieldMatches_falsy [OF assms, of "content p" lc] have "\<not> falsy (content p)" by blast
  then obtain s where "content p = Str s" by (cases "content p") auto
  with True show ?thesis
    by (simp add: postMatches_def searchInText_fieldMatches postHit_def)
next
  case False
  then show ?thesis
    by (auto simp: postMatches_def searchInText_fieldMatches postHit_def)
qed

lemma scanPosts_ok:
  assumes "\<forall>k\<in>set kws. k \<noteq> []"
  shows "\<exists>ms. scanPosts lc sA sC kws i ps acc = Inr (acc @ ms) \<and>
              length ms = length (filter (postHit lc sA sC kws) ps)"
proof (induction ps arbitrary: i acc)
  case Nil
  then show ?case by simp
next
  case (Cons p ps)
  from postMatches_ok [OF assms, of lc sA sC p]
  obtain pm where pm: "postMatches lc sA sC kws p = Inr pm"
      "pm \<noteq> [] \<longleftrightarrow> postHit lc sA sC kws p" by blast
  show ?case
  proof (cases "pm = []")
    case True
    with pm Cons.IH [of "Suc i" acc] show ?thesis by simp
  next
    case False
    from Cons.IH [of "Suc i" "acc @ [PostMatch i (author p) (date p) pm]"]
    obtain ms where "scanPosts lc sA sC kws (Suc i) ps (acc @ [PostMatch i (author p) (date p) pm])
        = Inr ((acc @ [PostMatch i (author p) (date p) pm]) @ ms)"
      "length ms = length (filter (postHit lc sA sC kws) ps)" by blast
    with pm False show ?thesis
      by (intro exI [of _ "PostMatch i (author p) (date p) pm # ms"]) simp
  qed
qed

lemma threadHit_matchCount:
  "threadHit lc sT sA sC kws th \<longleftrightarrow> 0 < matchCount lc sT sA sC kws th"
  by (auto simp: threadHit_def matchCount_def filter_empty_conv)

lemma scanThread_ok:
  assumes kws: "\<forall>k\<in>set kws. k \<noteq> []" and ps: "posts th \<noteq> None"
  shows "\<exists>ms. length ms = matchCount lc sT sA sC kws th \<and>
           scanThread lc sT sA sC kws (f, th) acc =
             Inr (if threadHit lc sT sA sC kws th
                  then acc @ [\<lparr>r_file = f, r_title = title th, r_matches = ms,
                               r_score = int (length ms)\<rparr>]
                  else acc)"
proof -
  from ps obtain pl where pl: "posts th = Some pl" by auto
  let ?m0 = "if sT \<and> fieldMatches lc kws (title th) then [TitleMatch (title th)] else []"
  from scanPosts_ok [OF kws, of lc sA sC 0 pl ?m0]
  obtain ms where ms: "scanPosts lc sA sC kws 0 pl ?m0 = Inr (?m0 @ ms)"
      "length ms = length (filter (postHit lc sA sC kws) pl)" by blast
  have len: "length (?m0 @ ms) = matchCount lc sT sA sC kws th"
    using ms(2) pl by (simp add: matchCount_def threadPosts_def)
  have "scanThread lc sT sA sC kws (f, th) acc =
      Inr (if 0 < length (?m0 @ ms)
           then acc @ [\<lparr>r_file = f, r_title = title th, r_matches = ?m0 @ ms,
                        r_score = int (length (?m0 @ ms))\<rparr>]
           else acc)"
    using ms(1) pl by (simp add: scanThread_def searchInText_fieldMatches)
  with len show ?thesis
    unfolding threadHit_matchCount by (intro exI [of _ "?m0 @ ms"]) simp
qed

lemma scanThreads_ok:
  assumes kws: "\<forall>k\<in>set kws. k \<noteq> []"
  shows "\<forall>e\<in>set es. posts (snd e) \<noteq> None \<Longrightarrow>
     \<exists>rs. scanThreads lc sT sA sC kws es acc = Inr (acc @ rs) \<and>
       map (\<lambda>r. (r_file r, r_title r, r_score r)) rs =
         map (\<lambda>e. (fst e, title (snd e), int (matchCount lc sT sA sC kws (snd e))))
           (filter (\<lambda>e. threadHit lc sT sA sC kws (snd e)) es) \<and>
       (\<forall>r\<in>set rs. r_score r = int (length (r_matches r)))"
proof (induction es arbitrary: acc)
  case Nil
  then show ?case by simp
next
  case (Cons e es)
  obtain f th where e: "e = (f, th)" by (cases e)
  with Cons.prems have ps: "posts th \<noteq> None" by simp
  from scanThread_ok [OF kws ps, of lc sT sA sC f acc]
  obtain ms where ms: "length ms = matchCount lc sT sA sC kws th"
    "scanThread lc sT sA sC kws (f, th) acc =
       Inr (if threadHit lc sT sA sC kws th
            then acc @ [\<lparr>r_file = f, r_title = title th, r_matches = ms,
                         r_score = int (length ms)\<rparr>]
            else acc)" by blast
  let ?r = "\<lparr>r_file = f, r_title = title th, r_matches = ms, r_score = int (length ms)\<rparr>"
  let ?acc' = "if threadHit lc sT sA sC kws th then acc @ [?r] else acc"
  from Cons.prems have "\<forall>e\<in>set es. posts (snd e) \<noteq> None" by simp
  from Cons.IH [OF this, of ?acc']
  obtain rs where rs: "scanThreads lc sT sA sC kws es ?acc' = Inr (?acc' @ rs)"
    "map (\<lambda>r. (r_file r, r_title r, r_score r)) rs =
       map (\<lambda>e. (fst e, title (snd e), int (matchCount lc sT sA sC kws (snd e))))
         (filter (\<lambda>e. threadHit lc sT sA sC kws (snd e)) es)"
    "\<forall>r\<in>set rs. r_score r = int (length (r_matches r))" by blast
  show ?case
  proof (cases "threadHit lc sT sA sC kws th")
    case True
    with ms rs e show ?thesis
      by (intro exI [of _ "?r # rs"]) simp
  next
    case False
    with ms rs e show ?thesis
      by (intro exI [of _ rs]) simp
  qed
qed

lemma scanResults_ok:
  assumes "threads idx = Some es" and "\<forall>e\<in>set es. posts (snd e) \<noteq> None"
      and "\<forall>k\<in>set kws. k \<noteq> []"
  shows "\<exists>rs. scanResults lc idx opts kws = Inr rs \<and>
       map (\<lambda>r. (r_file r, r_title r, r_score r)) rs =
         map (\<lambda>e. (fst e, title (snd e), threadScore lc opts kws (snd e)))
           (filter (\<lambda>e. threadSelected lc opts kws (snd e)) es) \<and>
       (\<forall>r\<in>set rs. r_score r = int (length (r_matches r)))"
  using scanThreads_ok [OF assms(3,2), of lc "withDefault True (searchTitle opts)"
      "withDefault True (searchAuthor opts)" "withDefault True (searchContent opts)" "[]"]
  by (simp add: scanResults_def assms(1) threadSelected_def threadScore_def)

lemma map_fst_fst_snd:
  "map (\<lambda>r. (f r, g r, h r)) rs = map (\<lambda>e. (f' e, g' e, h' e)) es \<Longrightarrow>
   map (\<lambda>r. (f r, g r)) rs = map (\<lambda>e. (f' e, g' e)) es"
  by (induction rs arbitrary: es) auto

lemma map_fst_snd_snd:
  "map (\<lambda>r. (f r, g r, h r)) rs = map (\<lambda>e. (f' e, g' e, h' e)) es \<Longrightarrow>
   map (\<lambda>r. (f r, h r)) rs = map (\<lambda>e. (f' e, h' e)) es"
  by (induction rs arbitrary: es) auto

lemma threadHit_keywordOccurs: "threadHit lc sT sA sC kws th \<Longrightarrow> keywordOccurs lc kws th"
  unfolding threadHit_def keywordOccurs_def postHit_def fieldMatches_def by blast

section \<open>Sorting and truncation\<close>

lemma insertBy_byScore: "insertBy byScore x ys = insort_key (\<lambda>r. - r_score r) x ys"
  by (induction ys) (simp_all add: byScore_def)

lemma sortBy_byScore: "sortBy byScore rs = sort_key (\<lambda>r. - r_score r) rs"
  by (induction rs) (simp_all add: sortBy_def sort_key_def insertBy_byScore)

lemma sorted_sortBy: "sorted_wrt (\<lambda>a b. r_score b \<le> r_score a) (sortBy byScore rs)"
  using sorted_sort_key [of "\<lambda>r. - r_score r" rs]
  by (simp add: sortBy_byScore sorted_map)

lemma stable_sortBy:
  "filter (\<lambda>r. r_score r = k) (sortBy byScore rs) = filter (\<lambda>r. r_score r = k) rs"
  using sort_key_stable [of "\<lambda>r. - r_score r" "- k" rs]
  by (simp add: sortBy_byScore)

lemma mset_sortBy: "mset (sortBy byScore rs) = mset rs"
  by (simp add: sortBy_byScore)

lemma set_sortBy: "set (sortBy byScore rs) = set rs"
  by (simp add: sortBy_byScore)

lemma slice0_nonneg: "0 \<le> n \<Longrightarrow> slice0 xs n = take (nat n) xs"
  by (simp add: slice0_def Let_def min_def)

lemma set_slice0: "set (slice0 xs n) \<subseteq> set xs"
  unfolding slice0_def Let_def by (rule set_take_subset)

lemma slice0_is_take: "\<exists>m. slice0 xs n = take m xs"
  unfolding slice0_def Let_def by blast

lemma sorted_take_drop:
  assumes "sorted_wrt P xs"
  shows "\<forall>a\<in>set (take n xs). \<forall>b\<in>set (drop n xs). P a b"
proof -
  from assms have "sorted_wrt P (take n xs @ drop n xs)" by simp
  then show ?thesis by (simp only: sorted_wrt_append) blast
qed

lemma searchLoaded_scan:
  assumes "trim q \<noteq> []" and "queryKeywords lc q \<noteq> []"
      and "scanResults lc idx opts (queryKeywords lc q) = Inr rs"
  shows "searchLoaded lc (Some idx) q opts =
           Inr (slice0 (sortBy byScore rs) (withDefault 50 (maxResults opts)))"
  using assms by (simp add: searchLoaded_def Let_def)

lemma searchLoaded_None: "searchLoaded lc None q opts = Inr []"
  by (simp add: searchLoaded_def)

lemma searchLoaded_blank: "trim q = [] \<Longrightarrow> searchLoaded lc this_index q opts = Inr []"
  by (simp add: searchLoaded_def split: option.splits)

lemma searchLoaded_no_keywords:
  "queryKeywords lc q = [] \<Longrightarrow> searchLoaded lc this_index q opts = Inr []"
  by (simp add: searchLoaded_def Let_def split: option.splits)

section \<open>loadIndex\<close>

lemma loadIndex_failed: "index (fst w) = None \<Longrightarrow> index (fst (loadIndex FetchFailed w)) = None"
  by (cases w) (simp add: loadIndex_def loadIndex_call_def loadIndex_settle_def Let_def)

lemma reachable_inv:
  "index (fst w) \<noteq> None \<longrightarrow> \<not> isLoading (fst w) \<Longrightarrow>
   index (fst (step e w)) \<noteq> None \<longrightarrow> \<not> isLoading (fst (step e w))"
  by (cases w; cases e)
     (auto simp: loadIndex_call_def loadIndex_settle_def Let_def split: fetch_result.splits)

lemma run_inv:
  "index (fst w) \<noteq> None \<longrightarrow> \<not> isLoading (fst w) \<Longrightarrow>
   index (fst (run es w)) \<noteq> None \<longrightarrow> \<not> isLoading (fst (run es w))"
proof (induction es arbitrary: w)
  case Nil
  then show ?case by simp
next
  case (Cons e es)
  from Cons.IH [OF reachable_inv [OF Cons.prems]] show ?case by simp
qed

lemma step_loaded:
  "index (fst w) \<noteq> None \<Longrightarrow> \<not> isLoading (fst w) \<Longrightarrow> step e w = w"
  by (cases w; cases e) (auto simp: loadIndex_call_def Let_def)

lemma run_loaded:
  "index (fst w) \<noteq> None \<Longrightarrow> \<not> isLoading (fst w) \<Longrightarrow> run es w = w"
  by (induction es) (simp_all add: step_loaded)

lemma step_Call_loading: "isLoading (fst w) \<Longrightarrow> step Call w = w"
  by (cases w) (simp add: loadIndex_call_def Let_def)

lemma loadIndex_guard: "index (fst w) \<noteq> None \<or> isLoading (fst w) \<Longrightarrow> loadIndex r w = w"
  by (simp add: loadIndex_def)

lemma step_Call_idle:
  "index (fst w) = None \<Longrightarrow> \<not> isLoading (fst w) \<Longrightarrow>
   step Call w = ((fst w)\<lparr>isLoading := True\<rparr>, snd w + 1)"
  by (cases w) (simp add: loadIndex_call_def Let_def)

lemma loadIndex_no_index:
  "index (fst w) = None \<Longrightarrow> \<not> isLoading (fst w) \<Longrightarrow> r = FetchFailed \<or> r = Parsed None \<Longrightarrow>
   loadIndex r w = (fst w, snd w + 1)"
  by (cases w) (auto simp: loadIndex_def loadIndex_call_def loadIndex_settle_def Let_def)

lemma loadIndex_idle_counts:
  "index (fst w) = None \<Longrightarrow> \<not> isLoading (fst w) \<Longrightarrow> snd (loadIndex r w) = snd w + 1"
  by (cases w; cases r) (auto simp: loadIndex_def loadIndex_call_def loadIndex_settle_def Let_def)

lemma loadIndex_parsed:
  "index (fst w) = None \<Longrightarrow> \<not> isLoading (fst w) \<Longrightarrow>
   loadIndex (Parsed (Some idx)) w = (\<lparr>index = Some idx, isLoading = False\<rparr>, snd w + 1)"
  by (cases w) (auto simp: loadIndex_def loadIndex_call_def loadIndex_settle_def Let_def)

section \<open>The markup\<close>

lemma formatPostMatches_concat:
  "formatPostMatches pms html = html @ concat (map postMatchEntry pms)"
proof (induction pms arbitrary: html)
  case Nil
  then show ?case by simp
next
  case (Cons pm pms)
  then show ?case by (cases pm) simp_all
qed

lemma formatMatches_concat: "formatMatches ms html = html @ concat (map matchEntry ms)"
proof (induction ms arbitrary: html)
  case Nil
  then show ?case by simp
next
  case (Cons m ms)
  then show ?case by (cases m) (simp_all add: formatPostMatches_concat)
qed

lemma formatResults_concat:
  "formatResults rs html =
     html @ concat (map (\<lambda>r. itemOpen r @ concat (map matchEntry (r_matches r)) @ itemClose) rs)"
  by (induction rs arbitrary: html) (simp_all add: formatMatches_concat)

lemma header_differs: "resultsHeader n @ rest \<noteq> noResults"
proof
  assume "resultsHeader n @ rest = noResults"
  then have "take 20 (resultsHeader n @ rest) = take 20 noResults" by simp
  then show False by (simp add: resultsHeader_def noResults_def ascii_def)
qed

lemma titleLink_in_itemOpen: "sublist (titleLink r) (itemOpen r)"
proof -
  have "itemOpen r =
      ascii ''\<newline>                <div class=\"search-result-item\">\<newline>                    <div class=\"search-result-title\">\<newline>                        '' @
      titleLink r @
      ascii ''\<newline>                    </div>\<newline>                    <div class=\"search-result-matches\">''"
    by (simp add: itemOpen_def titleLink_def ascii_def)
  then show ?thesis unfolding sublist_def by blast
qed

section \<open>The example evaluated\<close>

lemma example_threads: "threads exampleIndex = Some exampleThreads"
  by (simp add: exampleIndex_def)

lemma example_posts: "\<forall>e\<in>set exampleThreads. posts (snd e) \<noteq> None"
  by (simp add: exampleThreads_def)

lemma example_posts_all: "list_all (\<lambda>e. posts (snd e) \<noteq> None) exampleThreads"
  by (simp add: exampleThreads_def)

lemma example_keywords: "queryKeywords lowerASCII (ascii ''Sonic'') = [ascii ''sonic'']"
  by code_simp

lemma example_trim: "trim (ascii ''Sonic'') \<noteq> []"
  by code_simp

lemma example_selected:
  "filter (\<lambda>e. threadSelected lowerASCII defaultOptions [ascii ''sonic''] (snd e)) exampleThreads
     = [exampleThreads ! 0, exampleThreads ! 2]"
  by code_simp

lemma example_scores:
  "map (\<lambda>e. (fst e, threadScore lowerASCII defaultOptions [ascii ''sonic''] (snd e)))
     [exampleThreads ! 0, exampleThreads ! 2] = [(ascii ''t1.html'', 1), (ascii ''t3.html'', 2)]"
  by code_simp

lemma example_titles:
  "map (\<lambda>e. (fst e, title (snd e))) [exampleThreads ! 0, exampleThreads ! 2]
     = [(ascii ''t1.html'', Str (ascii ''Chao garden'')),
        (ascii ''t3.html'', Str (ascii ''Sonic Adventure''))]"
  by code_simp

lemma example_search:
  "searchLoaded lowerASCII (Some exampleIndex) (ascii ''Sonic'') defaultOptions
     = Inr [exampleResult3, exampleResult1]"
  by code_simp

lemma example_scan:
  "scanResults lowerASCII exampleIndex limitOne [ascii ''sonic'']
     = Inr [exampleResult1, exampleResult3]"
  by code_simp

section \<open>The claims\<close>

text \<open>
  Claim C1. Let the index hold its threads, each with its array of posts, and let the
  query have keywords. Then the scan of \<^verbatim>\<open>search\<close> ends without an exception, and
  its results are, in the order of the index, exactly the threads for which an enabled
  field matches: the title when \<^verbatim>\<open>searchTitle\<close> holds, the author or the content of
  some post when \<^verbatim>\<open>searchAuthor\<close> or \<^verbatim>\<open>searchContent\<close> holds, a field matching
  when some keyword is a substring of its normalised text. Every thread of the index is
  examined. What \<^verbatim>\<open>search\<close> returns is these results, sorted and truncated.
\<close>

theorem search_finds_matching_threads:
  assumes "threads idx = Some es"
      and "\<forall>e\<in>set es. posts (snd e) \<noteq> None"
      and "queryKeywords lc q \<noteq> []"
  shows "\<exists>rs. scanResults lc idx opts (queryKeywords lc q) = Inr rs \<and>
           map (\<lambda>r. (r_file r, r_title r)) rs =
             map (\<lambda>e. (fst e, title (snd e)))
               (filter (\<lambda>e. threadSelected lc opts (queryKeywords lc q) (snd e)) es) \<and>
           (trim q \<noteq> [] \<longrightarrow>
              searchLoaded lc (Some idx) q opts =
                Inr (slice0 (sortBy byScore rs) (withDefault 50 (maxResults opts))))"
proof -
  from scanResults_ok [OF assms(1,2) queryKeywords_nonempty, of lc opts lc q]
  obtain rs where rs: "scanResults lc idx opts (queryKeywords lc q) = Inr rs"
    "map (\<lambda>r. (r_file r, r_title r, r_score r)) rs =
       map (\<lambda>e. (fst e, title (snd e), threadScore lc opts (queryKeywords lc q) (snd e)))
         (filter (\<lambda>e. threadSelected lc opts (queryKeywords lc q) (snd e)) es)"
    by blast
  from rs(1) map_fst_fst_snd [OF rs(2)] searchLoaded_scan [OF _ assms(3) rs(1)]
  show ?thesis by blast
qed

theorem search_finds_matching_threads_witness:
  "threads exampleIndex = Some exampleThreads \<and>
   list_all (\<lambda>e. posts (snd e) \<noteq> None) exampleThreads \<and>
   queryKeywords lowerASCII (ascii ''Sonic'') \<noteq> [] \<and>
   (\<exists>rs. scanResults lowerASCII exampleIndex defaultOptions [ascii ''sonic''] = Inr rs \<and>
      map (\<lambda>r. (r_file r, r_title r)) rs =
        [(ascii ''t1.html'', Str (ascii ''Chao garden'')),
         (ascii ''t3.html'', Str (ascii ''Sonic Adventure''))])"
proof -
  have k: "queryKeywords lowerASCII (ascii ''Sonic'') \<noteq> []"
    by (simp add: example_keywords)
  from search_finds_matching_threads [OF example_threads example_posts k, of defaultOptions]
  show ?thesis
    unfolding example_keywords example_selected example_titles
    using example_threads example_posts_all by auto
qed

text \<open>
  Claim C2. The score of a result is the number of its match entries, which is one for
  a matching title plus one for every post with a matching field. The returned list is
  in non-increasing order of score, and nothing else ranks it: results of equal score
  keep the order of the scan.
\<close>

theorem search_scores_and_order:
  assumes "threads idx = Some es"
      and "\<forall>e\<in>set es. posts (snd e) \<noteq> None"
      and "queryKeywords lc q \<noteq> []"
      and "trim q \<noteq> []"
  shows "\<exists>rs out.
           scanResults lc idx opts (queryKeywords lc q) = Inr rs \<and>
           searchLoaded lc (Some idx) q opts = Inr out \<and>
           map (\<lambda>r. (r_file r, r_score r)) rs =
             map (\<lambda>e. (fst e, threadScore lc opts (queryKeywords lc q) (snd e)))
               (filter (\<lambda>e. threadSelected lc opts (queryKeywords lc q) (snd e)) es) \<and>
           (\<forall>r\<in>set out. r_score r = int (length (r_matches r))) \<and>
           sorted_wrt (\<lambda>a b. r_score b \<le> r_score a) out \<and>
           (\<forall>k. prefix (filter (\<lambda>r. r_score r = k) out) (filter (\<lambda>r. r_score r = k) rs))"
proof -
  from scanResults_ok [OF assms(1,2) queryKeywords_nonempty, of lc opts lc q]
  obtain rs where rs: "scanResults lc idx opts (queryKeywords lc q) = Inr rs"
    "map (\<lambda>r. (r_file r, r_title r, r_score r)) rs =
       map (\<lambda>e. (fst e, title (snd e), threadScore lc opts (queryKeywords lc q) (snd e)))
         (filter (\<lambda>e. threadSelected lc opts (queryKeywords lc q) (snd e)) es)"
    "\<forall>r\<in>set rs. r_score r = int (length (r_matches r))"
    by blast
  let ?out = "slice0 (sortBy byScore rs) (withDefault 50 (maxResults opts))"
  obtain m where m: "?out = take m (sortBy byScore rs)"
    using slice0_is_take by blast
  have out: "searchLoaded lc (Some idx) q opts = Inr ?out"
    by (rule searchLoaded_scan [OF assms(4,3) rs(1)])
  have "set ?out \<subseteq> set rs"
    using set_slice0 [of "sortBy byScore rs"] by (simp add: set_sortBy)
  with rs(3) have score: "\<forall>r\<in>set ?out. r_score r = int (length (r_matches r))" by blast
  have sorted: "sorted_wrt (\<lambda>a b. r_score b \<le> r_score a) ?out"
    unfolding m by (rule sorted_wrt_take [OF sorted_sortBy])
  have stable: "prefix (filter (\<lambda>r. r_score r = k) ?out) (filter (\<lambda>r. r_score r = k) rs)" for k
  proof -
    have "prefix (take m (sortBy byScore rs)) (sortBy byScore rs)"
      by (rule take_is_prefix)
    then have "prefix (filter (\<lambda>r. r_score r = k) (take m (sortBy byScore rs)))
                 (filter (\<lambda>r. r_score r = k) (sortBy byScore rs))"
      by (rule filter_mono_prefix)
    then show ?thesis by (simp only: m stable_sortBy)
  qed
  from rs(1) out map_fst_snd_snd [OF rs(2)] score sorted stable show ?thesis by blast
qed

theorem search_scores_and_order_witness:
  "threads exampleIndex = Some exampleThreads \<and>
   list_all (\<lambda>e. posts (snd e) \<noteq> None) exampleThreads \<and>
   queryKeywords lowerASCII (ascii ''Sonic'') \<noteq> [] \<and> trim (ascii ''Sonic'') \<noteq> [] \<and>
   (\<exists>rs. scanResults lowerASCII exampleIndex defaultOptions [ascii ''sonic''] = Inr rs \<and>
      map (\<lambda>r. (r_file r, r_score r)) rs = [(ascii ''t1.html'', 1), (ascii ''t3.html'', 2)]) \<and>
   sorted_wrt (\<lambda>a b. r_score b \<le> r_score a) [exampleResult3, exampleResult1]"
proof -
  have k: "queryKeywords lowerASCII (ascii ''Sonic'') \<noteq> []"
    by (simp add: example_keywords)
  from search_scores_and_order [OF example_threads example_posts k example_trim, of defaultOptions]
  show ?thesis
    unfolding example_keywords example_selected example_scores example_search
    using example_threads example_posts_all example_trim by auto
qed

text \<open>
  Claim C3. The keywords of a query are its normalised text split on runs of white
  space, the empty pieces dropped; every keyword is non-empty and free of white space;
  put end to end the keywords are the normalised text without its white space; and
  \<^verbatim>\<open>search\<close> scans with these keywords and no others.
\<close>

theorem queryKeywords_whitespace_split:
  "queryKeywords lc q = wordsSpec (normalizeText lc (Str q)) \<and>
   (\<forall>k\<in>set (queryKeywords lc q). k \<noteq> [] \<and> (\<forall>x\<in>set k. \<not> isWhiteSpace x)) \<and>
   concat (queryKeywords lc q) = filter (\<lambda>c. \<not> isWhiteSpace c) (normalizeText lc (Str q)) \<and>
   searchLoaded lc (Some idx) q opts =
     (if trim q = [] \<or> wordsSpec (normalizeText lc (Str q)) = [] then Inr []
      else case scanResults lc idx opts (wordsSpec (normalizeText lc (Str q))) of
             Inl e \<Rightarrow> Inl e
           | Inr rs \<Rightarrow> Inr (slice0 (sortBy byScore rs) (withDefault 50 (maxResults opts))))"
proof -
  have 1: "queryKeywords lc q = wordsSpec (normalizeText lc (Str q))"
    by (rule queryKeywords_words)
  have 2: "\<forall>k\<in>set (queryKeywords lc q). k \<noteq> [] \<and> (\<forall>x\<in>set k. \<not> isWhiteSpace x)"
    using wordsSpec_elems [of _ "normalizeText lc (Str q)"] by (simp add: 1)
  have 3: "searchLoaded lc (Some idx) q opts =
     (if trim q = [] \<or> queryKeywords lc q = [] then Inr []
      else case scanResults lc idx opts (queryKeywords lc q) of
             Inl e \<Rightarrow> Inl e
           | Inr rs \<Rightarrow> Inr (slice0 (sortBy byScore rs) (withDefault 50 (maxResults opts))))"
    by (simp add: searchLoaded_def Let_def)
  have 4: "concat (queryKeywords lc q) =
      filter (\<lambda>c. \<not> isWhiteSpace c) (normalizeText lc (Str q))"
    by (simp only: 1 concat_wordsSpec)
  from 1 2 3 4 show ?thesis by simp
qed

theorem queryKeywords_whitespace_split_witness:
  "queryKeywords lowerASCII (ascii '' Foo   bar,baz  '') = [ascii ''foo'', ascii ''barbaz''] \<and>
   wordsSpec (normalizeText lowerASCII (Str (ascii '' Foo   bar,baz  '')))
     = [ascii ''foo'', ascii ''barbaz'']"
proof -
  have "queryKeywords lowerASCII (ascii '' Foo   bar,baz  '') = [ascii ''foo'', ascii ''barbaz'']"
    by code_simp
  with queryKeywords_whitespace_split [of lowerASCII "ascii '' Foo   bar,baz  ''"]
  show ?thesis by simp
qed

text \<open>
  Claim C4. \<^verbatim>\<open>searchInText\<close> reports a match exactly when some keyword is a
  contiguous substring of the normalised text, \<^verbatim>\<open>includes\<close> being the plain substring
  test. A result that \<^verbatim>\<open>search\<close> returns comes from a thread in which some keyword
  of the query occurs in a normalised field: the title, or the author or content of a
  post.
\<close>

theorem searchInText_exact_substring:
  "(searchInText lc text kws \<longleftrightarrow> (\<exists>k\<in>set kws. sublist k (normalizeText lc text))) \<and>
   (includes_str s k \<longleftrightarrow> (\<exists>pre suf. s = pre @ k @ suf)) \<and>
   (threads idx = Some es \<and> (\<forall>e\<in>set es. posts (snd e) \<noteq> None) \<and>
    searchLoaded lc (Some idx) q opts = Inr out \<and> r \<in> set out \<longrightarrow>
      (\<exists>e\<in>set es. r_file r = fst e \<and> r_title r = title (snd e) \<and>
                   keywordOccurs lc (queryKeywords lc q) (snd e)))"
proof -
  have 1: "searchInText lc text kws \<longleftrightarrow> (\<exists>k\<in>set kws. sublist k (normalizeText lc text))"
    by (rule searchInText_iff)
  have 2: "includes_str s k \<longleftrightarrow> (\<exists>pre suf. s = pre @ k @ suf)"
    by (simp add: includes_str_sublist sublist_def)
  have 3: "\<exists>e\<in>set es. r_file r = fst e \<and> r_title r = title (snd e) \<and>
                   keywordOccurs lc (queryKeywords lc q) (snd e)"
    if h: "threads idx = Some es" "\<forall>e\<in>set es. posts (snd e) \<noteq> None"
       "searchLoaded lc (Some idx) q opts = Inr out" "r \<in> set out"
  proof -
    from scanResults_ok [OF h(1,2) queryKeywords_nonempty, of lc opts lc q]
    obtain rs where rs: "scanResults lc idx opts (queryKeywords lc q) = Inr rs"
      "map (\<lambda>r. (r_file r, r_title r, r_score r)) rs =
         map (\<lambda>e. (fst e, title (snd e), threadScore lc opts (queryKeywords lc q) (snd e)))
           (filter (\<lambda>e. threadSelected lc opts (queryKeywords lc q) (snd e)) es)"
      by blast
    have "out = [] \<or> out = slice0 (sortBy byScore rs) (withDefault 50 (maxResults opts))"
      using h(3) rs(1) by (simp add: searchLoaded_def Let_def split: if_splits)
    with h(4) have "r \<in> set (slice0 (sortBy byScore rs) (withDefault 50 (maxResults opts)))"
      by auto
    with set_slice0 [of "sortBy byScore rs"] have "r \<in> set rs"
      by (auto simp: set_sortBy)
    then have "(r_file r, r_title r) \<in> set (map (\<lambda>r. (r_file r, r_title r)) rs)"
      by simp
    also have "map (\<lambda>r. (r_file r, r_title r)) rs = map (\<lambda>e. (fst e, title (snd e)))
           (filter (\<lambda>e. threadSelected lc opts (queryKeywords lc q) (snd e)) es)"
      by (rule map_fst_fst_snd [OF rs(2)])
    finally obtain e where "e \<in> set es" "threadSelected lc opts (queryKeywords lc q) (snd e)"
        "r_file r = fst e" "r_title r = title (snd e)"
      by auto
    then show ?thesis
      using threadHit_keywordOccurs unfolding threadSelected_def by blast
  qed
  from 1 2 3 show ?thesis by blast
qed

theorem searchInText_exact_substring_witness:
  "threads exampleIndex = Some exampleThreads \<and>
   list_all (\<lambda>e. posts (snd e) \<noteq> None) exampleThreads \<and>
   searchLoaded lowerASCII (Some exampleIndex) (ascii ''Sonic'') defaultOptions
     = Inr [exampleResult3, exampleResult1] \<and>
   exampleResult1 \<in> set [exampleResult3, exampleResult1] \<and>
   (\<exists>e\<in>set exampleThreads. r_file exampleResult1 = fst e \<and>
      keywordOccurs lowerASCII [ascii ''sonic''] (snd e)) \<and>
   (searchInText lowerASCII (Str (ascii ''Sonic Adventure'')) [ascii ''sonic''] \<longleftrightarrow>
      (\<exists>k\<in>set [ascii ''sonic'']. sublist k (normalizeText lowerASCII (Str (ascii ''Sonic Adventure'')))))"
proof -
  have m: "exampleResult1 \<in> set [exampleResult3, exampleResult1]" by simp
  from searchInText_exact_substring [of lowerASCII "Str (ascii ''Sonic Adventure'')"
      "[ascii ''sonic'']" "[]" "[]" exampleIndex exampleThreads "ascii ''Sonic''" defaultOptions
      "[exampleResult3, exampleResult1]" exampleResult1]
    example_threads example_posts example_posts_all example_search m
  show ?thesis unfolding example_keywords by blast
qed

text \<open>
  Claim C5 as stated fails. The first call of \<^verbatim>\<open>loadIndex\<close> on a new object issues a
  fetch; when that fetch fails the call completes with the index still null, and the
  next call issues a second fetch and changes the index.
\<close>

theorem loadIndex_fetches_again_after_failure:
  "snd (loadIndex FetchFailed (constructor, 0)) = 1 \<and>
   index (fst (loadIndex FetchFailed (constructor, 0))) = None \<and>
   snd (loadIndex (Parsed (Some exampleIndex)) (loadIndex FetchFailed (constructor, 0))) = 2 \<and>
   index (fst (loadIndex (Parsed (Some exampleIndex)) (loadIndex FetchFailed (constructor, 0))))
     = Some exampleIndex"
  by (simp add: loadIndex_def loadIndex_call_def loadIndex_settle_def constructor_def Let_def)

text \<open>
  Claim C5, amended. Once the index is set (to a truthy value), no later call of
  \<^verbatim>\<open>loadIndex\<close> and no settling of a fetch changes the object or issues a fetch: the
  index never changes once set. While a fetch is in flight, a call of \<^verbatim>\<open>loadIndex\<close>
  issues no fetch and changes nothing. A call on an object with a null index and no
  fetch in flight issues one fetch; when the fetch or the parsing fails, or the document
  is falsy, the call completes with the index still null and the next call fetches
  again; when a truthy document is parsed, the call completes with the index set to it.
  The states of the first sentence are those a page session reaches from the
  constructor by calls of \<^verbatim>\<open>loadIndex\<close> and settlings of its fetch.
\<close>

theorem loadIndex_cached_once_loaded:
  "(index (fst (run es (constructor, 0))) \<noteq> None \<longrightarrow>
      run es' (run es (constructor, 0)) = run es (constructor, 0) \<and>
      loadIndex r (run es (constructor, 0)) = run es (constructor, 0)) \<and>
   (isLoading (fst w) \<longrightarrow> step Call w = w \<and> loadIndex r w = w) \<and>
   (index (fst w) = None \<and> \<not> isLoading (fst w) \<longrightarrow>
      step Call w = ((fst w)\<lparr>isLoading := True\<rparr>, snd w + 1) \<and>
      loadIndex FetchFailed w = (fst w, snd w + 1) \<and>
      loadIndex (Parsed None) w = (fst w, snd w + 1) \<and>
      snd (loadIndex r (loadIndex FetchFailed w)) = snd w + 2 \<and>
      snd (loadIndex r (loadIndex (Parsed None) w)) = snd w + 2 \<and>
      loadIndex (Parsed (Some idx)) w = (\<lparr>index = Some idx, isLoading = False\<rparr>, snd w + 1))"
proof -
  have 1: "run es' (run es (constructor, 0)) = run es (constructor, 0) \<and>
      loadIndex r (run es (constructor, 0)) = run es (constructor, 0)"
    if set: "index (fst (run es (constructor, 0))) \<noteq> None"
  proof -
    have "index (fst (constructor, 0 :: nat)) \<noteq> None \<longrightarrow> \<not> isLoading (fst (constructor, 0 :: nat))"
      by (simp add: constructor_def)
    from run_inv [OF this, of es] set have "\<not> isLoading (fst (run es (constructor, 0)))"
      by simp
    from run_loaded [OF set this] set show ?thesis
      by (simp add: loadIndex_def)
  qed
  have 2: "step Call w = w \<and> loadIndex r w = w" if "isLoading (fst w)"
    using that step_Call_loading loadIndex_guard by simp
  have 3: "step Call w = ((fst w)\<lparr>isLoading := True\<rparr>, snd w + 1) \<and>
      loadIndex FetchFailed w = (fst w, snd w + 1) \<and>
      loadIndex (Parsed None) w = (fst w, snd w + 1) \<and>
      snd (loadIndex r (loadIndex FetchFailed w)) = snd w + 2 \<and>
      snd (loadIndex r (loadIndex (Parsed None) w)) = snd w + 2 \<and>
      loadIndex (Parsed (Some idx)) w = (\<lparr>index = Some idx, isLoading = False\<rparr>, snd w + 1)"
    if h: "index (fst w) = None" "\<not> isLoading (fst w)"
  proof -
    have a: "loadIndex FetchFailed w = (fst w, snd w + 1)"
      by (rule loadIndex_no_index [OF h]) simp
    have b: "loadIndex (Parsed None) w = (fst w, snd w + 1)"
      by (rule loadIndex_no_index [OF h]) simp
    have c: "snd (loadIndex r (fst w, snd w + 1)) = snd w + 2"
      using loadIndex_idle_counts [of "(fst w, snd w + 1)" r] h by simp
    from a b c step_Call_idle [OF h] loadIndex_parsed [OF h] show ?thesis by simp
  qed
  from 1 2 3 show ?thesis by blast
qed

theorem loadIndex_cached_once_loaded_witness:
  "index (fst (run [Call, Call, Settle (Parsed (Some exampleIndex))] (constructor, 0))) \<noteq> None \<and>
   run [Call, Settle FetchFailed, Call]
     (run [Call, Call, Settle (Parsed (Some exampleIndex))] (constructor, 0))
     = (\<lparr>index = Some exampleIndex, isLoading = False\<rparr>, 1) \<and>
   isLoading (fst (\<lparr>index = None, isLoading = True\<rparr>, 1 :: nat)) \<and>
   step Call (\<lparr>index = None, isLoading = True\<rparr>, 1) = (\<lparr>index = None, isLoading = True\<rparr>, 1) \<and>
   index (fst (constructor, 0 :: nat)) = None \<and> \<not> isLoading (fst (constructor, 0 :: nat)) \<and>
   loadIndex FetchFailed (constructor, 0) = (constructor, 1) \<and>
   loadIndex (Parsed None) (constructor, 0) = (constructor, 1) \<and>
   snd (loadIndex (Parsed (Some exampleIndex)) (loadIndex (Parsed None) (constructor, 0))) = 2"
proof -
  have r: "run [Call, Call, Settle (Parsed (Some exampleIndex))] (constructor, 0)
     = (\<lparr>index = Some exampleIndex, isLoading = False\<rparr>, 1)"
    by (simp add: loadIndex_call_def loadIndex_settle_def constructor_def Let_def)
  then have a: "index (fst (run [Call, Call, Settle (Parsed (Some exampleIndex))] (constructor, 0))) \<noteq> None"
    by simp
  have b: "isLoading (fst (\<lparr>index = None, isLoading = True\<rparr>, 1 :: nat))" by simp
  have c: "index (fst (constructor, 0 :: nat)) = None \<and> \<not> isLoading (fst (constructor, 0 :: nat))"
    by (simp add: constructor_def)
  have p1: "run [Call, Settle FetchFailed, Call]
      (run [Call, Call, Settle (Parsed (Some exampleIndex))] (constructor, 0))
      = run [Call, Call, Settle (Parsed (Some exampleIndex))] (constructor, 0)"
    using loadIndex_cached_once_loaded [of "[Call, Call, Settle (Parsed (Some exampleIndex))]"
        "[Call, Settle FetchFailed, Call]" FetchFailed "(constructor, 0)" exampleIndex] a
    by blast
  have p2: "step Call (\<lparr>index = None, isLoading = True\<rparr>, 1)
      = (\<lparr>index = None, isLoading = True\<rparr>, 1)"
    using loadIndex_cached_once_loaded [of "[]" "[]" FetchFailed "(\<lparr>index = None, isLoading = True\<rparr>, 1)" exampleIndex] b
    by blast
  have p3: "loadIndex FetchFailed (constructor, 0)
        = (fst (constructor, 0 :: nat), snd (constructor, 0 :: nat) + 1) \<and>
      loadIndex (Parsed None) (constructor, 0)
        = (fst (constructor, 0 :: nat), snd (constructor, 0 :: nat) + 1) \<and>
      snd (loadIndex (Parsed (Some exampleIndex)) (loadIndex (Parsed None) (constructor, 0)))
        = snd (constructor, 0 :: nat) + 2"
    using loadIndex_cached_once_loaded [of "[]" "[]" "Parsed (Some exampleIndex)" "(constructor, 0)" exampleIndex] c
    by blast
  from p3 have p4: "loadIndex FetchFailed (constructor, 0) = (constructor, 1) \<and>
      loadIndex (Parsed None) (constructor, 0) = (constructor, 1) \<and>
      snd (loadIndex (Parsed (Some exampleIndex)) (loadIndex (Parsed None) (constructor, 0))) = 2"
    by auto
  from a b c p1 p2 p4 show ?thesis by (simp only: r) auto
qed

text \<open>
  Claim C6. For the inputs undefined, null and the empty string \<^verbatim>\<open>normalizeText\<close>
  returns the empty string. For any other string \<open>t\<close> it lowercases \<open>t\<close>, keeps of the
  result exactly the code units that are ASCII word characters, in U+4E00 to U+9FFF or
  white space, and trims: what is kept is the returned text between a prefix and a
  suffix of white space only, and the returned text neither begins nor ends with white
  space.
\<close>

theorem normalizeText_spec:
  "normalizeText lc Undefined = [] \<and> normalizeText lc Null = [] \<and>
   normalizeText lc (Str []) = [] \<and>
   (t \<noteq> [] \<longrightarrow>
     (\<exists>pre suf.
        filter (\<lambda>c. isWordChar c \<or> isCJK c \<or> isWhiteSpace c) (lc t)
          = pre @ normalizeText lc (Str t) @ suf \<and>
        list_all isWhiteSpace pre \<and> list_all isWhiteSpace suf \<and>
        (normalizeText lc (Str t) = [] \<or>
         (\<not> isWhiteSpace (hd (normalizeText lc (Str t))) \<and>
          \<not> isWhiteSpace (last (normalizeText lc (Str t)))))))"
proof -
  let ?f = "filter (\<lambda>c. isWordChar c \<or> isCJK c \<or> isWhiteSpace c) (lc t)"
  have kept: "?f = filter (\<lambda>c. \<not> rxOther c) (lc t)"
    by (simp add: rxOther_def)
  {
    assume t: "t \<noteq> []"
    let ?pre = "takeWhile isWhiteSpace ?f"
    let ?suf = "rev (takeWhile isWhiteSpace (rev (trimStart ?f)))"
    have n: "normalizeText lc (Str t) = trim ?f"
      using t by (simp add: normalizeText_Str kept)
    have "?f = ?pre @ normalizeText lc (Str t) @ ?suf"
      unfolding n by (rule trim_decomp)
    moreover have "list_all isWhiteSpace ?pre"
      unfolding list_all_iff by (metis set_takeWhileD)
    moreover have "list_all isWhiteSpace ?suf"
      unfolding list_all_iff by (metis set_rev set_takeWhileD)
    ultimately have "\<exists>pre suf. ?f = pre @ normalizeText lc (Str t) @ suf \<and>
        list_all isWhiteSpace pre \<and> list_all isWhiteSpace suf \<and>
        (normalizeText lc (Str t) = [] \<or>
         (\<not> isWhiteSpace (hd (normalizeText lc (Str t))) \<and>
          \<not> isWhiteSpace (last (normalizeText lc (Str t)))))"
      using normalizeText_ends [of lc "Str t"] by blast
  }
  then show ?thesis by (simp add: normalizeText_empty)
qed

theorem normalizeText_spec_witness:
  "ascii ''Hi, you! '' \<noteq> [] \<and> normalizeText lowerASCII (Str (ascii ''Hi, you! '')) = ascii ''hi you'' \<and>
   (\<exists>pre suf. filter (\<lambda>c. isWordChar c \<or> isCJK c \<or> isWhiteSpace c) (lowerASCII (ascii ''Hi, you! ''))
       = pre @ ascii ''hi you'' @ suf \<and> list_all isWhiteSpace pre \<and> list_all isWhiteSpace suf)"
proof -
  have t: "ascii ''Hi, you! '' \<noteq> []" by (simp add: ascii_def)
  have n: "normalizeText lowerASCII (Str (ascii ''Hi, you! '')) = ascii ''hi you''"
    by code_simp
  from normalizeText_spec [of lowerASCII "ascii ''Hi, you! ''"] t show ?thesis
    unfolding n by blast
qed

text \<open>
  Claim C7. \<^verbatim>\<open>formatSearchResults\<close> returns the no-results block exactly for the
  empty list. For a non-empty list it returns the header followed by one item per
  result, in order; an item is the opening markup of lines 109 to 114, which contains
  the link to the result's file with its escaped title, then one entry per match of the
  result, then the closing markup.
\<close>

theorem formatSearchResults_structure:
  "(formatSearchResults rs = noResults \<longleftrightarrow> rs = []) \<and>
   (rs \<noteq> [] \<longrightarrow>
      formatSearchResults rs =
        resultsHeader (length rs) @
        concat (map (\<lambda>r. itemOpen r @ concat (map matchEntry (r_matches r)) @ itemClose) rs)) \<and>
   sublist (titleLink r) (itemOpen r)"
proof -
  have 1: "formatSearchResults rs =
        resultsHeader (length rs) @
        concat (map (\<lambda>r. itemOpen r @ concat (map matchEntry (r_matches r)) @ itemClose) rs)"
    if "rs \<noteq> []"
    using that by (simp add: formatSearchResults_def formatResults_concat)
  have 2: "formatSearchResults rs = noResults \<longleftrightarrow> rs = []"
  proof (cases "rs = []")
    case True
    then show ?thesis by (simp add: formatSearchResults_def)
  next
    case False
    with 1 header_differs show ?thesis by simp
  qed
  from 1 2 titleLink_in_itemOpen show ?thesis by blast
qed

theorem formatSearchResults_structure_witness:
  "[exampleResult1] \<noteq> [] \<and>
   formatSearchResults [exampleResult1] =
     resultsHeader 1 @ itemOpen exampleResult1 @
     postInfoHtml (Str (ascii ''Sonic'')) (Str (ascii ''2008-01-02'')) @
     authorMatchHtml (Str (ascii ''Sonic'')) @ ascii ''</div>'' @ itemClose \<and>
   formatSearchResults [] = noResults"
proof -
  have a: "[exampleResult1] \<noteq> []" by simp
  have b: "r_matches exampleResult1 = [PostMatch 0 (Str (ascii ''Sonic'')) (Str (ascii ''2008-01-02''))
                     [AuthorMatch (Str (ascii ''Sonic''))]]"
    by (simp add: exampleResult1_def)
  from formatSearchResults_structure [of "[exampleResult1]" exampleResult1]
    formatSearchResults_structure [of "[]" exampleResult1] a
  show ?thesis by (simp add: b)
qed

text \<open>
  Claim C8. \<^verbatim>\<open>search\<close> returns the empty list, and throws nothing, for a query that
  is empty or white space only, for a query without keywords (one of punctuation only,
  for instance), and whenever the index is null after \<^verbatim>\<open>loadIndex\<close>; it is null
  then when it was null before and the fetch or the parsing fails.
\<close>

theorem search_degrades_to_empty:
  "(list_all isWhiteSpace q \<longrightarrow> snd (search lc r w q opts) = Inr []) \<and>
   (queryKeywords lc q = [] \<longrightarrow> snd (search lc r w q opts) = Inr []) \<and>
   (index (fst (fst (search lc r w q opts))) = None \<longrightarrow> snd (search lc r w q opts) = Inr []) \<and>
   (index (fst w) = None \<longrightarrow>
      index (fst (fst (search lc FetchFailed w q opts))) = None \<and>
      snd (search lc FetchFailed w q opts) = Inr [])"
proof -
  have 1: "snd (search lc r w q opts) = Inr []" if "list_all isWhiteSpace q"
    using searchLoaded_blank [OF trim_all_ws [OF that]] by (simp add: search_def Let_def)
  have 2: "snd (search lc r w q opts) = Inr []" if "queryKeywords lc q = []"
    using searchLoaded_no_keywords [OF that] by (simp add: search_def Let_def)
  have 3: "snd (search lc r w q opts) = Inr []"
    if "index (fst (fst (search lc r w q opts))) = None"
    using that by (simp add: search_def Let_def searchLoaded_None)
  have 4: "index (fst (fst (search lc FetchFailed w q opts))) = None \<and>
      snd (search lc FetchFailed w q opts) = Inr []" if "index (fst w) = None"
    using loadIndex_failed [OF that] by (simp add: search_def Let_def searchLoaded_None)
  from 1 2 3 4 show ?thesis by blast
qed

theorem search_degrades_to_empty_witness:
  "list_all isWhiteSpace (ascii ''  '') \<and>
   snd (search lowerASCII (Parsed (Some exampleIndex)) (constructor, 0) (ascii ''  '')
          defaultOptions) = Inr [] \<and>
   queryKeywords lowerASCII (ascii ''?! ...'') = [] \<and>
   snd (search lowerASCII (Parsed (Some exampleIndex)) (constructor, 0) (ascii ''?! ...'')
          defaultOptions) = Inr [] \<and>
   index (fst (constructor, 0 :: nat)) = None \<and>
   index (fst (fst (search lowerASCII FetchFailed (constructor, 0) (ascii ''Sonic'')
                      defaultOptions))) = None \<and>
   snd (search lowerASCII FetchFailed (constructor, 0) (ascii ''Sonic'') defaultOptions) = Inr []"
proof -
  have a: "list_all isWhiteSpace (ascii ''  '')" by code_simp
  have b: "queryKeywords lowerASCII (ascii ''?! ...'') = []" by code_simp
  have c: "index (fst (constructor, 0 :: nat)) = None" by (simp add: constructor_def)
  from a b c
    search_degrades_to_empty [of "ascii ''  ''" lowerASCII "Parsed (Some exampleIndex)"
      "(constructor, 0)" defaultOptions]
    search_degrades_to_empty [of "ascii ''?! ...''" lowerASCII "Parsed (Some exampleIndex)"
      "(constructor, 0)" defaultOptions]
    search_degrades_to_empty [of "ascii ''Sonic''" lowerASCII FetchFailed "(constructor, 0)"
      defaultOptions]
  show ?thesis by blast
qed

text \<open>
  Claim C9 as stated fails for a negative \<^verbatim>\<open>maxResults\<close>: \<^verbatim>\<open>slice(0, -1)\<close> drops
  the last result only. Of the two results for \<^verbatim>\<open>Sonic\<close> one is returned, which is
  more than \<open>-1\<close>.
\<close>

theorem search_negative_maxResults_exceeds:
  "snd (search lowerASCII (Parsed (Some exampleIndex)) (constructor, 0) (ascii ''Sonic'')
          negativeOptions) = Inr [exampleResult3] \<and>
   maxResults negativeOptions = Some (- 1) \<and>
   \<not> int (length [exampleResult3]) \<le> - 1"
proof -
  have "snd (search lowerASCII (Parsed (Some exampleIndex)) (constructor, 0) (ascii ''Sonic'')
          negativeOptions) = Inr [exampleResult3]"
    by code_simp
  then show ?thesis by (simp add: negativeOptions_def)
qed

text \<open>
  Claim C9, amended. Let \<^verbatim>\<open>maxResults\<close> be absent or a non-negative integer. Then a
  list that \<^verbatim>\<open>search\<close> returns has at most \<^verbatim>\<open>maxResults\<close> elements, 50 when the
  option is absent. When the index is loaded, the query is not blank and has keywords,
  and the scan ends with the results \<open>rs\<close>, \<^verbatim>\<open>search\<close> returns exactly the first
  \<^verbatim>\<open>maxResults\<close> elements of the sorted \<open>rs\<close>; the sorted list is a permutation of
  \<open>rs\<close> in non-increasing order of score, so no result left out has a higher score
  than one returned.
\<close>

theorem search_length_bound:
  assumes "0 \<le> withDefault 50 (maxResults opts)"
  shows "(snd (search lc r w q opts) = Inr out \<longrightarrow>
            int (length out) \<le> withDefault 50 (maxResults opts) \<and>
            (maxResults opts = None \<longrightarrow> length out \<le> 50)) \<and>
         (index (fst (loadIndex r w)) = Some idx \<and> trim q \<noteq> [] \<and> queryKeywords lc q \<noteq> [] \<and>
          scanResults lc idx opts (queryKeywords lc q) = Inr rs \<longrightarrow>
            snd (search lc r w q opts)
              = Inr (take (nat (withDefault 50 (maxResults opts))) (sortBy byScore rs)) \<and>
            mset (sortBy byScore rs) = mset rs \<and>
            sorted_wrt (\<lambda>a b. r_score b \<le> r_score a) (sortBy byScore rs) \<and>
            (\<forall>a\<in>set (take (nat (withDefault 50 (maxResults opts))) (sortBy byScore rs)).
               \<forall>b\<in>set (drop (nat (withDefault 50 (maxResults opts))) (sortBy byScore rs)).
                 r_score b \<le> r_score a))"
proof -
  let ?n = "withDefault 50 (maxResults opts)"
  have len: "int (length out) \<le> ?n" if "snd (search lc r w q opts) = Inr out"
  proof -
    have "out = [] \<or> (\<exists>rs. out = take (nat ?n) rs)"
      using that slice0_nonneg [OF assms]
      by (auto simp: search_def searchLoaded_def Let_def
               split: option.splits if_splits sum.splits)
    with assms show ?thesis by auto
  qed
  have dflt: "length out \<le> 50"
    if "snd (search lc r w q opts) = Inr out" "maxResults opts = None"
    using len [OF that(1)] that(2) by (simp add: withDefault_def)
  have exact: "snd (search lc r w q opts) = Inr (take (nat ?n) (sortBy byScore rs))"
    if "index (fst (loadIndex r w)) = Some idx" "trim q \<noteq> []" "queryKeywords lc q \<noteq> []"
       "scanResults lc idx opts (queryKeywords lc q) = Inr rs"
    using searchLoaded_scan [OF that(2,3,4)] that(1) slice0_nonneg [OF assms]
    by (simp add: search_def Let_def)
  have order: "\<forall>a\<in>set (take (nat ?n) (sortBy byScore rs)).
      \<forall>b\<in>set (drop (nat ?n) (sortBy byScore rs)). r_score b \<le> r_score a"
    by (rule sorted_take_drop [OF sorted_sortBy])
  from len dflt exact order mset_sortBy sorted_sortBy show ?thesis by blast
qed

theorem search_length_bound_witness:
  "0 \<le> withDefault 50 (maxResults limitOne) \<and>
   index (fst (loadIndex (Parsed (Some exampleIndex)) (constructor, 0))) = Some exampleIndex \<and>
   trim (ascii ''Sonic'') \<noteq> [] \<and> queryKeywords lowerASCII (ascii ''Sonic'') \<noteq> [] \<and>
   scanResults lowerASCII exampleIndex limitOne [ascii ''sonic'']
     = Inr [exampleResult1, exampleResult3] \<and>
   snd (search lowerASCII (Parsed (Some exampleIndex)) (constructor, 0) (ascii ''Sonic'') limitOne)
     = Inr [exampleResult3] \<and>
   int (length [exampleResult3]) \<le> withDefault 50 (maxResults limitOne)"
proof -
  have a: "0 \<le> withDefault 50 (maxResults limitOne)" by code_simp
  have n: "nat (withDefault 50 (maxResults limitOne)) = 1" by code_simp
  have i: "index (fst (loadIndex (Parsed (Some exampleIndex)) (constructor, 0))) = Some exampleIndex"
    by (simp add: loadIndex_def loadIndex_call_def loadIndex_settle_def constructor_def Let_def)
  have k: "queryKeywords lowerASCII (ascii ''Sonic'') \<noteq> []" by (simp add: example_keywords)
  have s: "sortBy byScore [exampleResult1, exampleResult3] = [exampleResult3, exampleResult1]"
    by code_simp
  from search_length_bound [OF a, of lowerASCII "Parsed (Some exampleIndex)" "(constructor, 0)" "ascii ''Sonic''"
        "[exampleResult3]" exampleIndex "[exampleResult1, exampleResult3]"]
    a i k example_trim example_scan
  show ?thesis unfolding example_keywords n s by simp
qed

text \<open>
  Claim C10. \<^verbatim>\<open>normalizeText\<close> is idempotent, every keyword of a query is its own
  normal form, and normalising the keywords once more leaves \<^verbatim>\<open>searchInText\<close>
  unchanged. Two facts about the platform's \<^verbatim>\<open>toLowerCase\<close> are used: its result
  holds no ASCII capital, and it leaves a string unchanged that consists of lowercase
  ASCII word characters, code units in U+4E00 to U+9FFF and white space.
\<close>

theorem normalizeText_idempotent:
  assumes no_upper: "\<And>s c. c \<in> set (lc s) \<Longrightarrow> \<not> isUpperASCII c"
      and fixes_normal: "\<And>s. \<forall>c\<in>set s. isNormalUnit c \<Longrightarrow> lc s = s"
  shows "normalizeText lc (Str (normalizeText lc (Str t))) = normalizeText lc (Str t) \<and>
         (\<forall>k\<in>set (queryKeywords lc q). normalizeText lc (Str k) = k) \<and>
         searchInText lc text (map (\<lambda>k. normalizeText lc (Str k)) (queryKeywords lc q))
           = searchInText lc text (queryKeywords lc q)"
proof -
  have nu: "\<forall>c\<in>set (normalizeText lc v). isNormalUnit c" for v
    by (rule normalizeText_units) (rule no_upper)
  have idem: "normalizeText lc (Str (normalizeText lc (Str t))) = normalizeText lc (Str t)"
    by (rule normalizeText_fixed [OF fixes_normal nu normalizeText_ends])
  have kw: "normalizeText lc (Str k) = k" if "k \<in> set (queryKeywords lc q)" for k
  proof -
    from that have k: "k \<noteq> []" "\<forall>x\<in>set k. \<not> isWhiteSpace x"
        "set k \<subseteq> set (normalizeText lc (Str q))"
      using wordsSpec_elems [of k "normalizeText lc (Str q)"]
      by (simp_all add: queryKeywords_words)
    from k(3) nu [of "Str q"]
    have units: "\<forall>c\<in>set k. isNormalUnit c" by blast
    from k(1,2) have ends: "k = [] \<or> (\<not> isWhiteSpace (hd k) \<and> \<not> isWhiteSpace (last k))"
      by simp
    show ?thesis
      by (rule normalizeText_fixed [OF fixes_normal units ends])
  qed
  then have "map (\<lambda>k. normalizeText lc (Str k)) (queryKeywords lc q) = queryKeywords lc q"
    by (simp add: map_idI)
  with idem kw show ?thesis by simp
qed

theorem normalizeText_idempotent_witness:
  "normalizeText lowerASCII (Str (normalizeText lowerASCII (Str (ascii '' Hello, World! ''))))
     = ascii ''hello world'' \<and>
   queryKeywords lowerASCII (ascii '' Hello, World! '') = [ascii ''hello'', ascii ''world''] \<and>
   normalizeText lowerASCII (Str (ascii ''hello'')) = ascii ''hello''"
proof -
  have n: "normalizeText lowerASCII (Str (ascii '' Hello, World! '')) = ascii ''hello world''"
    by code_simp
  have k: "queryKeywords lowerASCII (ascii '' Hello, World! '') = [ascii ''hello'', ascii ''world'']"
    by code_simp
  from normalizeText_idempotent [of lowerASCII "ascii '' Hello, World! ''" "ascii '' Hello, World! ''" Null,
      OF lowerASCII_no_upper lowerASCII_fixes_normal]
  show ?thesis unfolding n k by simp
qed

end
